theory Spec2Isabelle
  imports Complex_Main
begin

section \<open>Data model (core/types.ts)\<close>

text \<open>
  Identifiers are JavaScript strings. An optional field (\<open>version?: AgentVersion\<close>) is a
  \<open>string option\<close>. The code tests presence of identifiers by truthiness
  (\<open>if (context.version)\<close>, \<open>!this.defaultVersion\<close>, \<open>a || b\<close>), under which the empty
  string counts as absent; \<open>truthy\<close> is that test and \<open>present\<close> the identifier it lets
  through.
\<close>

type_synonym AgentVersion = string
type_synonym UserId = string
type_synonym TenantId = string
type_synonym Date = nat

definition truthy :: "string option \<Rightarrow> bool" where
  "truthy x = (case x of None \<Rightarrow> False | Some s \<Rightarrow> s \<noteq> [])"

definition present :: "string option \<Rightarrow> string option" where
  "present x = (if truthy x then x else None)"

text \<open>
  \<open>AgentConfig\<close> with the fields that \<open>AgentConfigSchema\<close> constrains. The fields
  \<open>parameters\<close> and \<open>metadata\<close> are free-form, unconstrained by the schema and read by
  neither registry nor router; they are left out. \<open>temperature\<close> and \<open>maxTokens\<close> are
  JavaScript numbers, read here as reals (the schema rejects NaN).
\<close>

record AgentConfig =
  ac_version :: AgentVersion
  ac_prompt :: string
  ac_provider :: string
  ac_model :: string
  ac_temperature :: real
  ac_maxTokens :: "real option"

text \<open>
  \<open>ExecutionContext\<close> without its free-form \<open>context\<close> map, which the router does not
  read.
\<close>

record ExecutionContext =
  ctx_userId :: UserId
  ctx_tenantId :: "TenantId option"
  ctx_version :: "AgentVersion option"
  ctx_input :: string

record UserVersionPin =
  pin_userId :: UserId
  pin_version :: AgentVersion
  pinnedAt :: Date
  reason :: "string option"

text \<open>
  \<open>TenantConfig\<close> and \<open>GlobalConfig\<close>: the router reads only \<open>defaultVersion\<close>. The
  prompt overrides (temperature, maxTokens, model; read by the executor only) and the
  cost limits (daily, monthly) are tuples of optional values, the feature flags an
  association list.
\<close>

record TenantConfig =
  tc_tenantId :: TenantId
  tc_defaultVersion :: "AgentVersion option"
  tc_promptOverrides :: "(real option \<times> real option \<times> string option) option"
  tc_costLimits :: "(real option \<times> real option) option"
  tc_features :: "(string \<times> bool) list option"

record GlobalConfig =
  gc_defaultVersion :: AgentVersion
  availableVersions :: "AgentVersion list"
  globalCostLimits :: "(real option \<times> real option) option"

text \<open>
  Every \<open>throw new Error(msg)\<close> of the code is \<open>Error msg\<close> with the message the template
  string builds; a failed \<open>AgentConfigSchema.parse\<close> throws zod's \<open>ZodError\<close>.
\<close>

datatype error = Error string | ZodError

text \<open>
  \<open>AgentConfigSchema\<close>: non-empty version, prompt and model, provider one of the two
  literals, temperature in [0, 2], maxTokens positive when given.
\<close>

definition AgentConfigSchema_parse :: "AgentConfig \<Rightarrow> bool" where
  "AgentConfigSchema_parse c \<longleftrightarrow>
     ac_version c \<noteq> [] \<and> ac_prompt c \<noteq> [] \<and>
     (ac_provider c = ''openai'' \<or> ac_provider c = ''anthropic'') \<and>
     ac_model c \<noteq> [] \<and> 0 \<le> ac_temperature c \<and> ac_temperature c \<le> 2 \<and>
     (case ac_maxTokens c of None \<Rightarrow> True | Some m \<Rightarrow> 0 < m)"

section \<open>JavaScript \<open>Map\<close> as an insertion-ordered association list\<close>

text \<open>
  \<open>Map.set\<close> replaces the value of an existing key in place and appends a new key at the
  end; \<open>Map.delete\<close> removes the entry and tells whether there was one; iteration
  (\<open>keys()\<close>, \<open>entries()\<close>) follows insertion order. A \<open>Map\<close> holds each key once:
  \<open>distinct (map fst m)\<close>.
\<close>

fun Map_get :: "(string \<times> 'v) list \<Rightarrow> string \<Rightarrow> 'v option" where
  "Map_get [] k = None"
| "Map_get ((k', v) # m) k = (if k' = k then Some v else Map_get m k)"

definition Map_has :: "(string \<times> 'v) list \<Rightarrow> string \<Rightarrow> bool" where
  "Map_has m k = (Map_get m k \<noteq> None)"

fun Map_set :: "string \<Rightarrow> 'v \<Rightarrow> (string \<times> 'v) list \<Rightarrow> (string \<times> 'v) list" where
  "Map_set k v [] = [(k, v)]"
| "Map_set k v ((k', v') # m) = (if k' = k then (k, v) # m else (k', v') # Map_set k v m)"

fun Map_delete :: "string \<Rightarrow> (string \<times> 'v) list \<Rightarrow> (string \<times> 'v) list" where
  "Map_delete k [] = []"
| "Map_delete k ((k', v') # m) = (if k' = k then Map_delete k m else (k', v') # Map_delete k m)"

section \<open>AgentRegistry (core/agent-registry.ts)\<close>

record AgentRegistry =
  configs :: "(AgentVersion \<times> AgentConfig) list"
  defaultVersion :: "AgentVersion option"

definition new_AgentRegistry :: AgentRegistry where
  "new_AgentRegistry = \<lparr>configs = [], defaultVersion = None\<rparr>"

text \<open>
  A mutating method returns its outcome (\<open>Inl\<close> the error thrown, \<open>Inr\<close> the value
  returned) together with the registry as the call leaves it, also when it throws.
\<close>

definition register :: "AgentConfig \<Rightarrow> AgentRegistry \<Rightarrow> (error + unit) \<times> AgentRegistry" where
  "register config r =
     (if \<not> AgentConfigSchema_parse config then (Inl ZodError, r)
      else
        let r1 = r\<lparr>configs := Map_set (ac_version config) config (configs r)\<rparr>
        in (Inr (),
            if \<not> truthy (defaultVersion r1)
            then r1\<lparr>defaultVersion := Some (ac_version config)\<rparr>
            else r1))"

definition get :: "AgentRegistry \<Rightarrow> AgentVersion \<Rightarrow> AgentConfig option" where
  "get r version = Map_get (configs r) version"

definition getVersions :: "AgentRegistry \<Rightarrow> AgentVersion list" where
  "getVersions r = map fst (configs r)"

definition has :: "AgentRegistry \<Rightarrow> AgentVersion \<Rightarrow> bool" where
  "has r version = Map_has (configs r) version"

definition setDefaultVersion :: "AgentVersion \<Rightarrow> AgentRegistry \<Rightarrow> (error + unit) \<times> AgentRegistry" where
  "setDefaultVersion version r =
     (if \<not> Map_has (configs r) version
      then (Inl (Error (''Version '' @ version @ '' not found in registry'')), r)
      else (Inr (), r\<lparr>defaultVersion := Some version\<rparr>))"

definition getDefaultVersion :: "AgentRegistry \<Rightarrow> AgentVersion option" where
  "getDefaultVersion r = defaultVersion r"

definition remove :: "AgentVersion \<Rightarrow> AgentRegistry \<Rightarrow> (error + bool) \<times> AgentRegistry" where
  "remove version r =
     (if defaultVersion r = Some version
      then (Inl (Error (''Cannot remove default version '' @ version @ ''. Set a new default first.'')), r)
      else (Inr (Map_has (configs r) version),
            r\<lparr>configs := Map_delete version (configs r)\<rparr>))"

definition list :: "AgentRegistry \<Rightarrow> AgentConfig list" where
  "list r = map snd (configs r)"

definition clear :: "AgentRegistry \<Rightarrow> AgentRegistry" where
  "clear r = r\<lparr>configs := [], defaultVersion := None\<rparr>"

subsection \<open>getLatestVersion\<close>

text \<open>
  The regular expression \<open>/^v?(\d+)\.(\d+)(?:\.(\d+))?/\<close> is anchored at the start only.
  A digit run is followed by a non-digit or the end, so the greedy \<open>\d+\<close> takes the
  maximal run and no backtracking changes the outcome; \<open>v?\<close> takes a leading \<open>v\<close>
  (without it the match would have to start with a digit). The third group takes part
  only when a dot and at least one digit follow the minor number.
\<close>

definition is_digit :: "char \<Rightarrow> bool" where
  "is_digit c = (48 \<le> (of_char c :: nat) \<and> (of_char c :: nat) \<le> 57)"

text \<open>
  A JavaScript number is an IEEE 754 double. \<open>parseInt(ds, 10)\<close> of a digit string is
  the double nearest to the string's decimal value, ties going to the even significand:
  the value itself below \<open>2^53\<close>, a multiple of a power of two above, \<open>Infinity\<close> from
  \<open>2^1024 - 2^970\<close> on. (ECMAScript lets an implementation read the digits after the
  twentieth significant one as zeros; the model rounds the full value.) These are the
  only numbers the code computes with, so a number is a natural number (a value that a
  double holds exactly) or \<open>Infinity\<close>.
  \<open>bit_length n\<close> is the number of binary digits of \<open>n\<close>; the significand of a double holds
  53 of them.
\<close>

datatype Number = Num nat | Infinity

fun bit_length :: "nat \<Rightarrow> nat" where
  "bit_length n = (if n = 0 then 0 else Suc (bit_length (n div 2)))"

declare bit_length.simps [simp del]

definition round_double :: "nat \<Rightarrow> Number" where
  "round_double n =
     (if n < 2 ^ 53 then Num n
      else
        let e = bit_length n - 53;
            q = n div 2 ^ e;
            r = n mod 2 ^ e;
            q' = (if 2 ^ e < 2 * r \<or> (2 * r = 2 ^ e \<and> odd q) then q + 1 else q)
        in if 2 ^ 1024 \<le> q' * 2 ^ e then Infinity else Num (q' * 2 ^ e))"

definition parseInt10 :: "string \<Rightarrow> Number" where
  "parseInt10 ds = round_double (foldl (\<lambda>acc c. 10 * acc + ((of_char c :: nat) - 48)) 0 ds)"

record SemVer =
  sv_version :: AgentVersion
  major :: Number
  minor :: Number
  patch :: Number

definition semver_match :: "AgentVersion \<Rightarrow> SemVer option" where
  "semver_match v =
     (let s1 = (case v of c # cs \<Rightarrow> if c = CHR ''v'' then cs else v | [] \<Rightarrow> v);
          m1 = takeWhile is_digit s1;
          r1 = dropWhile is_digit s1
      in if m1 = [] then None
         else case r1 of
           [] \<Rightarrow> None
         | d # r2 \<Rightarrow>
             if d \<noteq> CHR ''.'' then None
             else
               let m2 = takeWhile is_digit r2;
                   r3 = dropWhile is_digit r2
               in if m2 = [] then None
                  else
                    let m3 = (case r3 of
                                [] \<Rightarrow> []
                              | d' # r4 \<Rightarrow> if d' = CHR ''.'' then takeWhile is_digit r4 else [])
                    in Some \<lparr>sv_version = v,
                             major = parseInt10 m1,
                             minor = parseInt10 m2,
                             patch = parseInt10 (if m3 = [] then ''0'' else m3)\<rparr>)"

text \<open>
  The comparator passed to \<open>sort\<close>: negative when \<open>a\<close> goes before \<open>b\<close>. \<open>sort\<close> reads
  only the sign of the difference it returns and takes \<open>NaN\<close>, which is what
  \<open>Infinity - Infinity\<close> gives, for 0; \<open>minus_sign x y\<close> is that sign of \<open>x - y\<close>.
\<close>

definition minus_sign :: "Number \<Rightarrow> Number \<Rightarrow> int" where
  "minus_sign x y =
     (case x of
        Num a \<Rightarrow> (case y of Num b \<Rightarrow> sgn (int a - int b) | Infinity \<Rightarrow> - 1)
      | Infinity \<Rightarrow> (case y of Num b \<Rightarrow> 1 | Infinity \<Rightarrow> 0))"

definition compare_desc :: "SemVer \<Rightarrow> SemVer \<Rightarrow> int" where
  "compare_desc a b =
     (if major a \<noteq> major b then minus_sign (major b) (major a)
      else if minor a \<noteq> minor b then minus_sign (minor b) (minor a)
      else minus_sign (patch b) (patch a))"

text \<open>
  \<open>Array.prototype.sort\<close> is stable; for a consistent comparator its result is the
  stable insertion sort.
\<close>

fun insort_cmp :: "('a \<Rightarrow> 'a \<Rightarrow> int) \<Rightarrow> 'a \<Rightarrow> 'a list \<Rightarrow> 'a list" where
  "insort_cmp cmp x [] = [x]"
| "insort_cmp cmp x (y # ys) = (if cmp x y \<le> 0 then x # y # ys else y # insort_cmp cmp x ys)"

definition sort_cmp :: "('a \<Rightarrow> 'a \<Rightarrow> int) \<Rightarrow> 'a list \<Rightarrow> 'a list" where
  "sort_cmp cmp xs = foldr (insort_cmp cmp) xs []"

definition semanticVersions :: "AgentRegistry \<Rightarrow> SemVer list" where
  "semanticVersions r = sort_cmp compare_desc (List.map_filter semver_match (getVersions r))"

definition getLatestVersion :: "AgentRegistry \<Rightarrow> AgentVersion option" where
  "getLatestVersion r =
     (case getVersions r of
        [] \<Rightarrow> None
      | v0 # _ \<Rightarrow>
          (case semanticVersions r of
             s # _ \<Rightarrow> Some (sv_version s)
           | [] \<Rightarrow> (if truthy (defaultVersion r) then defaultVersion r else Some v0)))"

section \<open>VersionRouter (core/version-router.ts)\<close>

text \<open>
  The router holds a reference to its registry; the pair is one state, and a registry
  method called on the shared registry is a change of the \<open>registry\<close> field.
\<close>

record VersionRouter =
  registry :: AgentRegistry
  userPins :: "(UserId \<times> UserVersionPin) list"
  tenantConfigs :: "(TenantId \<times> TenantConfig) list"
  globalConfig :: "GlobalConfig option"

definition new_VersionRouter :: "AgentRegistry \<Rightarrow> VersionRouter" where
  "new_VersionRouter r = \<lparr>registry = r, userPins = [], tenantConfigs = [], globalConfig = None\<rparr>"

definition setGlobalConfig :: "GlobalConfig \<Rightarrow> VersionRouter \<Rightarrow> (error + unit) \<times> VersionRouter" where
  "setGlobalConfig config s =
     (let s1 = s\<lparr>globalConfig := Some config\<rparr>
      in if \<not> has (registry s1) (gc_defaultVersion config)
         then (Inl (Error (''Default version '' @ gc_defaultVersion config @ '' not found in registry'')), s1)
         else (case setDefaultVersion (gc_defaultVersion config) (registry s1) of
                 (Inl e, r') \<Rightarrow> (Inl e, s1\<lparr>registry := r'\<rparr>)
               | (Inr u, r') \<Rightarrow> (Inr (), s1\<lparr>registry := r'\<rparr>)))"

definition getGlobalConfig :: "VersionRouter \<Rightarrow> GlobalConfig option" where
  "getGlobalConfig s = globalConfig s"

text \<open>\<open>new Date()\<close> is the argument \<open>now\<close>.\<close>

definition pinUser ::
  "Date \<Rightarrow> UserId \<Rightarrow> AgentVersion \<Rightarrow> string option \<Rightarrow> VersionRouter \<Rightarrow> (error + unit) \<times> VersionRouter" where
  "pinUser now userId version rsn s =
     (if \<not> has (registry s) version
      then (Inl (Error (''Version '' @ version @ '' not found in registry'')), s)
      else (Inr (),
            s\<lparr>userPins := Map_set userId
                 \<lparr>pin_userId = userId, pin_version = version, pinnedAt = now, reason = rsn\<rparr>
                 (userPins s)\<rparr>))"

definition unpinUser :: "UserId \<Rightarrow> VersionRouter \<Rightarrow> bool \<times> VersionRouter" where
  "unpinUser userId s =
     (Map_has (userPins s) userId, s\<lparr>userPins := Map_delete userId (userPins s)\<rparr>)"

definition getUserPin :: "VersionRouter \<Rightarrow> UserId \<Rightarrow> UserVersionPin option" where
  "getUserPin s userId = Map_get (userPins s) userId"

definition setTenantConfig :: "TenantId \<Rightarrow> TenantConfig \<Rightarrow> VersionRouter \<Rightarrow> (error + unit) \<times> VersionRouter" where
  "setTenantConfig tenantId config s =
     (let s1 = s\<lparr>tenantConfigs := Map_set tenantId config (tenantConfigs s)\<rparr>
      in if truthy (tc_defaultVersion config) \<and> \<not> has (registry s1) (the (tc_defaultVersion config))
         then (Inl (Error (''Tenant default version '' @ the (tc_defaultVersion config) @ '' not found in registry'')), s1)
         else (Inr (), s1))"

definition getTenantConfig :: "VersionRouter \<Rightarrow> TenantId \<Rightarrow> TenantConfig option" where
  "getTenantConfig s tenantId = Map_get (tenantConfigs s) tenantId"

text \<open>
  \<open>resolveVersion\<close>: the strategy argument is a string at run time; \<open>strategy || 'pin'\<close>
  replaces an absent (or empty) one. The four blocks of the code are tried in order,
  each guarded by the strategies that reach it; a block that does not return falls
  through to the next.
\<close>

definition resolveVersion ::
  "VersionRouter \<Rightarrow> ExecutionContext \<Rightarrow> string option \<Rightarrow> error + AgentVersion" where
  "resolveVersion s context strategy =
     (if truthy (ctx_version context) then
        (if \<not> has (registry s) (the (ctx_version context))
         then Inl (Error (''Requested version '' @ the (ctx_version context) @ '' not found in registry''))
         else Inr (the (ctx_version context)))
      else
        let routingStrategy = (if truthy strategy then the strategy else ''pin'');
            pinStep = (if routingStrategy = ''pin''
                       then map_option pin_version (Map_get (userPins s) (ctx_userId context))
                       else None);
            tenantStep = (if routingStrategy = ''pin'' \<or> routingStrategy = ''tenant-default''
                          then (if truthy (ctx_tenantId context)
                                then (case Map_get (tenantConfigs s) (the (ctx_tenantId context)) of
                                        None \<Rightarrow> None
                                      | Some tenantConfig \<Rightarrow> present (tc_defaultVersion tenantConfig))
                                else None)
                          else None);
            globalStep = (if routingStrategy = ''pin'' \<or> routingStrategy = ''tenant-default''
                             \<or> routingStrategy = ''global-default''
                          then (case globalConfig s of
                                  None \<Rightarrow> None
                                | Some g \<Rightarrow> present (Some (gc_defaultVersion g)))
                          else None)
        in case pinStep of
             Some v \<Rightarrow> Inr v
           | None \<Rightarrow>
              (case tenantStep of
                 Some v \<Rightarrow> Inr v
               | None \<Rightarrow>
                  (case globalStep of
                     Some v \<Rightarrow> Inr v
                   | None \<Rightarrow>
                      if routingStrategy = ''latest'' \<or> routingStrategy = ''pin''
                         \<or> routingStrategy = ''tenant-default'' \<or> routingStrategy = ''global-default''
                      then (case present (getLatestVersion (registry s)) of
                              None \<Rightarrow> Inl (Error ''No agent versions available in registry'')
                            | Some latest \<Rightarrow> Inr latest)
                      else Inl (Error (''Unknown routing strategy: '' @ routingStrategy)))))"

definition getUsersPinnedToVersion :: "VersionRouter \<Rightarrow> AgentVersion \<Rightarrow> UserId list" where
  "getUsersPinnedToVersion s version =
     map fst (filter (\<lambda>(userId, pin). pin_version pin = version) (userPins s))"

text \<open>
  The loop of \<open>migrateUsers\<close> over the snapshot \<open>users\<close>; \<open>now i\<close> is the clock read by
  the \<open>pinUser\<close> call of iteration \<open>i\<close>. An error thrown by \<open>pinUser\<close> ends the loop.
\<close>

fun migrate_loop ::
  "(nat \<Rightarrow> Date) \<Rightarrow> AgentVersion \<Rightarrow> AgentVersion \<Rightarrow> UserId list \<Rightarrow> nat \<Rightarrow> VersionRouter
     \<Rightarrow> (error + nat) \<times> VersionRouter" where
  "migrate_loop now fromVersion toVersion [] migrated s = (Inr migrated, s)"
| "migrate_loop now fromVersion toVersion (userId # users) migrated s =
     (case pinUser (now migrated) userId toVersion (Some (''Migrated from '' @ fromVersion)) s of
        (Inl e, s') \<Rightarrow> (Inl e, s')
      | (Inr u, s') \<Rightarrow> migrate_loop now fromVersion toVersion users (migrated + 1) s')"

definition migrateUsers ::
  "(nat \<Rightarrow> Date) \<Rightarrow> AgentVersion \<Rightarrow> AgentVersion \<Rightarrow> VersionRouter \<Rightarrow> (error + nat) \<times> VersionRouter" where
  "migrateUsers now fromVersion toVersion s =
     (if \<not> has (registry s) toVersion
      then (Inl (Error (''Target version '' @ toVersion @ '' not found in registry'')), s)
      else migrate_loop now fromVersion toVersion (getUsersPinnedToVersion s fromVersion) 0 s)"

definition rollback ::
  "(nat \<Rightarrow> Date) \<Rightarrow> AgentVersion \<Rightarrow> AgentVersion \<Rightarrow> VersionRouter \<Rightarrow> (error + nat) \<times> VersionRouter" where
  "rollback now fromVersion toVersion s = migrateUsers now fromVersion toVersion s"

section \<open>Reachable states\<close>

text \<open>
  The registry states that a program can build: a fresh registry, changed by any of
  its mutating methods, whether the call returns or throws.
\<close>

inductive reg_reachable :: "AgentRegistry \<Rightarrow> bool" where
  reach_new: "reg_reachable new_AgentRegistry"
| reach_register: "reg_reachable r \<Longrightarrow> reg_reachable (snd (register config r))"
| reach_setDefaultVersion: "reg_reachable r \<Longrightarrow> reg_reachable (snd (setDefaultVersion version r))"
| reach_remove: "reg_reachable r \<Longrightarrow> reg_reachable (snd (remove version r))"
| reach_clear: "reg_reachable r \<Longrightarrow> reg_reachable (clear r)"

text \<open>The registry's invariant: a default version that is set is registered.\<close>

definition reg_inv :: "AgentRegistry \<Rightarrow> bool" where
  "reg_inv r = (case defaultVersion r of None \<Rightarrow> True | Some d \<Rightarrow> has r d)"

text \<open>
  The states of a router and its registry that a program can build. The router is
  constructed over a registry with any history; afterwards every mutating method of the
  registry and of the router may be called, and the state a call leaves counts whether
  the call returned or threw.
\<close>

inductive sys_reachable :: "VersionRouter \<Rightarrow> bool" where
  sys_new: "reg_reachable r \<Longrightarrow> sys_reachable (new_VersionRouter r)"
| sys_register: "sys_reachable s \<Longrightarrow> sys_reachable (s\<lparr>registry := snd (register config (registry s))\<rparr>)"
| sys_setDefaultVersion:
    "sys_reachable s \<Longrightarrow> sys_reachable (s\<lparr>registry := snd (setDefaultVersion version (registry s))\<rparr>)"
| sys_remove: "sys_reachable s \<Longrightarrow> sys_reachable (s\<lparr>registry := snd (remove version (registry s))\<rparr>)"
| sys_clear: "sys_reachable s \<Longrightarrow> sys_reachable (s\<lparr>registry := clear (registry s)\<rparr>)"
| sys_setGlobalConfig: "sys_reachable s \<Longrightarrow> sys_reachable (snd (setGlobalConfig config s))"
| sys_setTenantConfig: "sys_reachable s \<Longrightarrow> sys_reachable (snd (setTenantConfig tenantId tconfig s))"
| sys_pinUser: "sys_reachable s \<Longrightarrow> sys_reachable (snd (pinUser now userId version rsn s))"
| sys_unpinUser: "sys_reachable s \<Longrightarrow> sys_reachable (snd (unpinUser userId s))"
| sys_migrateUsers: "sys_reachable s \<Longrightarrow> sys_reachable (snd (migrateUsers clock fromVersion toVersion s))"

text \<open>
  The versions a router refers to, which \<open>resolveVersion\<close> can return without looking
  into the registry: the versions of the user pins, the tenant defaults that are given
  and the global default if it is given.
\<close>

definition referenced_versions :: "VersionRouter \<Rightarrow> AgentVersion list" where
  "referenced_versions s =
     map (\<lambda>x. pin_version (snd x)) (userPins s)
     @ List.map_filter (\<lambda>x. present (tc_defaultVersion (snd x))) (tenantConfigs s)
     @ (case globalConfig s of
          None \<Rightarrow> []
        | Some g \<Rightarrow> (case present (Some (gc_defaultVersion g)) of None \<Rightarrow> [] | Some d \<Rightarrow> [d]))"

text \<open>
  The same states, with two restrictions: \<open>remove\<close> is called only on a version that
  the router does not refer to at that moment (or on the default version, where it
  throws and changes nothing), \<open>clear\<close> only while the router refers to no version; and
  \<open>setGlobalConfig\<close> and \<open>setTenantConfig\<close> count only when they return.
\<close>

inductive keeps_reachable :: "VersionRouter \<Rightarrow> bool" where
  keeps_new: "reg_reachable r \<Longrightarrow> keeps_reachable (new_VersionRouter r)"
| keeps_register:
    "keeps_reachable s \<Longrightarrow> keeps_reachable (s\<lparr>registry := snd (register config (registry s))\<rparr>)"
| keeps_setDefaultVersion:
    "keeps_reachable s \<Longrightarrow> keeps_reachable (s\<lparr>registry := snd (setDefaultVersion version (registry s))\<rparr>)"
| keeps_setGlobalConfig:
    "keeps_reachable s \<Longrightarrow> fst (setGlobalConfig config s) = Inr () \<Longrightarrow>
     keeps_reachable (snd (setGlobalConfig config s))"
| keeps_setTenantConfig:
    "keeps_reachable s \<Longrightarrow> fst (setTenantConfig tenantId tconfig s) = Inr () \<Longrightarrow>
     keeps_reachable (snd (setTenantConfig tenantId tconfig s))"
| keeps_pinUser: "keeps_reachable s \<Longrightarrow> keeps_reachable (snd (pinUser now userId version rsn s))"
| keeps_unpinUser: "keeps_reachable s \<Longrightarrow> keeps_reachable (snd (unpinUser userId s))"
| keeps_migrateUsers:
    "keeps_reachable s \<Longrightarrow> keeps_reachable (snd (migrateUsers clock fromVersion toVersion s))"
| keeps_remove:
    "keeps_reachable s \<Longrightarrow>
     version \<notin> set (referenced_versions s) \<or> defaultVersion (registry s) = Some version \<Longrightarrow>
     keeps_reachable (s\<lparr>registry := snd (remove version (registry s))\<rparr>)"
| keeps_clear:
    "keeps_reachable s \<Longrightarrow> referenced_versions s = [] \<Longrightarrow>
     keeps_reachable (s\<lparr>registry := clear (registry s)\<rparr>)"

text \<open>
  Every version the router refers to (user pins, tenant defaults, the global default)
  is registered, and the registry's invariant holds.
\<close>

definition pins_registered :: "AgentRegistry \<Rightarrow> (UserId \<times> UserVersionPin) list \<Rightarrow> bool" where
  "pins_registered r pins = (\<forall>x \<in> set pins. has r (pin_version (snd x)))"

definition tenants_registered :: "AgentRegistry \<Rightarrow> (TenantId \<times> TenantConfig) list \<Rightarrow> bool" where
  "tenants_registered r tcs =
     (\<forall>x \<in> set tcs. truthy (tc_defaultVersion (snd x)) \<longrightarrow> has r (the (tc_defaultVersion (snd x))))"

definition global_registered :: "AgentRegistry \<Rightarrow> GlobalConfig option \<Rightarrow> bool" where
  "global_registered r g =
     (case g of None \<Rightarrow> True | Some c \<Rightarrow> gc_defaultVersion c \<noteq> [] \<longrightarrow> has r (gc_defaultVersion c))"

definition refs_registered :: "VersionRouter \<Rightarrow> bool" where
  "refs_registered s \<longleftrightarrow>
     reg_inv (registry s) \<and> pins_registered (registry s) (userPins s)
     \<and> tenants_registered (registry s) (tenantConfigs s)
     \<and> global_registered (registry s) (globalConfig s)"

section \<open>The specification's notions\<close>

text \<open>
  The pattern of a version identifier, in the specification's words: an optional
  \<open>v\<close>, the major number, a dot, the minor number, optionally a dot and the patch
  number, which is 0 when absent. A number is a run of decimal digits, as long as it
  can be, read in decimal notation; anything may follow the pattern.
\<close>

definition digit_value :: "char \<Rightarrow> nat option" where
  "digit_value c =
     map_of [(CHR ''0'', 0), (CHR ''1'', 1), (CHR ''2'', 2), (CHR ''3'', 3), (CHR ''4'', 4),
             (CHR ''5'', 5), (CHR ''6'', 6), (CHR ''7'', 7), (CHR ''8'', 8), (CHR ''9'', 9)] c"

text \<open>The value of a digit string, least significant digit first, and as written.\<close>

fun decimal_lsd :: "string \<Rightarrow> nat" where
  "decimal_lsd [] = 0"
| "decimal_lsd (c # cs) = the (digit_value c) + 10 * decimal_lsd cs"

definition decimal :: "string \<Rightarrow> nat" where
  "decimal ds = decimal_lsd (rev ds)"

definition digits :: "string \<Rightarrow> bool" where
  "digits ds \<longleftrightarrow> ds \<noteq> [] \<and> list_all (\<lambda>c. digit_value c \<noteq> None) ds"

text \<open>
  What follows a number does not continue it; what follows the minor number of an
  identifier without patch number is neither a digit nor a dot with a digit after it.
\<close>

definition no_digit_next :: "string \<Rightarrow> bool" where
  "no_digit_next rest = (case rest of [] \<Rightarrow> True | c # _ \<Rightarrow> digit_value c = None)"

definition no_patch_next :: "string \<Rightarrow> bool" where
  "no_patch_next rest =
     (case rest of
        [] \<Rightarrow> True
      | c # cs \<Rightarrow> digit_value c = None \<and> (c = CHR ''.'' \<longrightarrow> no_digit_next cs))"

inductive semver_pattern :: "string \<Rightarrow> nat \<Rightarrow> nat \<Rightarrow> nat \<Rightarrow> bool" where
  with_patch:
    "p = [] \<or> p = ''v'' \<Longrightarrow> digits a \<Longrightarrow> digits b \<Longrightarrow> digits c \<Longrightarrow> no_digit_next rest \<Longrightarrow>
     semver_pattern (p @ a @ ''.'' @ b @ ''.'' @ c @ rest) (decimal a) (decimal b) (decimal c)"
| without_patch:
    "p = [] \<or> p = ''v'' \<Longrightarrow> digits a \<Longrightarrow> digits b \<Longrightarrow> no_patch_next rest \<Longrightarrow>
     semver_pattern (p @ a @ ''.'' @ b @ rest) (decimal a) (decimal b) 0"

text \<open>
  The order on (major, minor, patch) triples under numeric comparison: of the numbers
  themselves (\<open>triple_le\<close>), and of the JavaScript numbers nearest to them
  (\<open>js_triple_le\<close>). A number is exact when it is its own nearest JavaScript number.
\<close>

definition triple_le :: "nat \<times> nat \<times> nat \<Rightarrow> nat \<times> nat \<times> nat \<Rightarrow> bool" where
  "triple_le t u =
     (case t of (a, b, c) \<Rightarrow> case u of (a', b', c') \<Rightarrow>
        a < a' \<or> (a = a' \<and> (b < b' \<or> (b = b' \<and> c \<le> c'))))"

definition number_less :: "Number \<Rightarrow> Number \<Rightarrow> bool" where
  "number_less x y =
     (case x of
        Num a \<Rightarrow> (case y of Num b \<Rightarrow> a < b | Infinity \<Rightarrow> True)
      | Infinity \<Rightarrow> False)"

definition number_triple_le :: "Number \<times> Number \<times> Number \<Rightarrow> Number \<times> Number \<times> Number \<Rightarrow> bool" where
  "number_triple_le t u =
     (case t of (a, b, c) \<Rightarrow> case u of (a', b', c') \<Rightarrow>
        number_less a a' \<or> (a = a' \<and> (number_less b b' \<or> (b = b' \<and> (number_less c c' \<or> c = c')))))"

definition js_triple_le :: "nat \<times> nat \<times> nat \<Rightarrow> nat \<times> nat \<times> nat \<Rightarrow> bool" where
  "js_triple_le t u =
     (case t of (a, b, c) \<Rightarrow> case u of (a', b', c') \<Rightarrow>
        number_triple_le (round_double a, round_double b, round_double c)
          (round_double a', round_double b', round_double c'))"

definition js_exact :: "nat \<Rightarrow> bool" where
  "js_exact n \<longleftrightarrow> round_double n = Num n"

definition sv_le :: "SemVer \<Rightarrow> SemVer \<Rightarrow> bool" where
  "sv_le s t = number_triple_le (major s, minor s, patch s) (major t, minor t, patch t)"

text \<open>
  The resolution chain as the specification words it. An identifier that is given is a
  non-empty string (\<open>present\<close>): the explicit version of the context, the version the
  context's user is pinned to, the default version configured for the context's
  tenant, the configured global default. Each strategy starts the chain at its own
  level and falls through to the levels below.
\<close>

definition explicit_version :: "ExecutionContext \<Rightarrow> AgentVersion option" where
  "explicit_version ctx = present (ctx_version ctx)"

definition user_pin_version :: "VersionRouter \<Rightarrow> ExecutionContext \<Rightarrow> AgentVersion option" where
  "user_pin_version s ctx = map_option pin_version (getUserPin s (ctx_userId ctx))"

definition tenant_default_version :: "VersionRouter \<Rightarrow> ExecutionContext \<Rightarrow> AgentVersion option" where
  "tenant_default_version s ctx =
     (case present (ctx_tenantId ctx) of
        None \<Rightarrow> None
      | Some t \<Rightarrow> (case getTenantConfig s t of
                     None \<Rightarrow> None
                   | Some tc \<Rightarrow> present (tc_defaultVersion tc)))"

definition global_default_version :: "VersionRouter \<Rightarrow> AgentVersion option" where
  "global_default_version s =
     (case getGlobalConfig s of None \<Rightarrow> None | Some g \<Rightarrow> present (Some (gc_defaultVersion g)))"

definition chain_latest :: "VersionRouter \<Rightarrow> error + AgentVersion" where
  "chain_latest s =
     (case present (getLatestVersion (registry s)) of
        None \<Rightarrow> Inl (Error ''No agent versions available in registry'')
      | Some v \<Rightarrow> Inr v)"

definition chain_global :: "VersionRouter \<Rightarrow> error + AgentVersion" where
  "chain_global s = (case global_default_version s of Some v \<Rightarrow> Inr v | None \<Rightarrow> chain_latest s)"

definition chain_tenant :: "VersionRouter \<Rightarrow> ExecutionContext \<Rightarrow> error + AgentVersion" where
  "chain_tenant s ctx =
     (case tenant_default_version s ctx of Some v \<Rightarrow> Inr v | None \<Rightarrow> chain_global s)"

definition chain_pin :: "VersionRouter \<Rightarrow> ExecutionContext \<Rightarrow> error + AgentVersion" where
  "chain_pin s ctx = (case user_pin_version s ctx of Some v \<Rightarrow> Inr v | None \<Rightarrow> chain_tenant s ctx)"

text \<open>
  A user is pinned to a version when the pin map holds a pin of that version for the
  user; the pin that \<open>migrateUsers\<close> writes for a user at time \<open>t\<close>.
\<close>

definition pinned_to :: "VersionRouter \<Rightarrow> AgentVersion \<Rightarrow> UserId \<Rightarrow> bool" where
  "pinned_to s version u = (case getUserPin s u of None \<Rightarrow> False | Some p \<Rightarrow> pin_version p = version)"

definition migrated_pin :: "UserId \<Rightarrow> AgentVersion \<Rightarrow> AgentVersion \<Rightarrow> Date \<Rightarrow> UserVersionPin" where
  "migrated_pin u fromVersion toVersion t =
     \<lparr>pin_userId = u, pin_version = toVersion, pinnedAt = t,
      reason = Some (''Migrated from '' @ fromVersion)\<rparr>"

section \<open>Example values\<close>

text \<open>A valid configuration for a version identifier, as the repository's test builds it.\<close>

definition cfg :: "AgentVersion \<Rightarrow> AgentConfig" where
  "cfg v = \<lparr>ac_version = v, ac_prompt = ''Test prompt'', ac_provider = ''openai'',
            ac_model = ''gpt-3.5-turbo'', ac_temperature = 7 / 10, ac_maxTokens = None\<rparr>"

text \<open>Registries: two versions with the first as default; the identifiers of the
  numeric-comparison example; identifiers that are not version numbers; two
  identifiers whose major numbers, \<open>2^53\<close> and \<open>2^53 + 1\<close>, have the same nearest
  JavaScript number; five versions.\<close>

definition reg12 :: AgentRegistry where
  "reg12 = \<lparr>configs = [(''v1.0'', cfg ''v1.0''), (''v2.0'', cfg ''v2.0'')], defaultVersion = Some ''v1.0''\<rparr>"

definition reg_semver :: AgentRegistry where
  "reg_semver = \<lparr>configs = [(''v1.0'', cfg ''v1.0''), (''v10.0'', cfg ''v10.0''), (''v2.0'', cfg ''v2.0'')],
                  defaultVersion = Some ''v1.0''\<rparr>"

definition reg_named :: AgentRegistry where
  "reg_named = \<lparr>configs = [(''stable'', cfg ''stable''), (''canary'', cfg ''canary'')],
                 defaultVersion = Some ''canary''\<rparr>"

definition reg_big :: AgentRegistry where
  "reg_big = \<lparr>configs = [(''v9007199254740992.0'', cfg ''v9007199254740992.0''),
                          (''v9007199254740993.0'', cfg ''v9007199254740993.0'')],
               defaultVersion = Some ''v9007199254740992.0''\<rparr>"

definition reg_demo :: AgentRegistry where
  "reg_demo = \<lparr>configs = [(''v1.0'', cfg ''v1.0''), (''v2.0'', cfg ''v2.0''), (''v2.1'', cfg ''v2.1''),
                           (''v3.0'', cfg ''v3.0''), (''v4.0'', cfg ''v4.0'')],
                defaultVersion = Some ''v1.0''\<rparr>"

text \<open>
  A router over \<open>reg_demo\<close> in which the user pin, the tenant default, the global
  default and the latest version all differ, and a context of that user and tenant.
\<close>

definition gc_demo :: GlobalConfig where
  "gc_demo = \<lparr>gc_defaultVersion = ''v1.0'', availableVersions = [''v1.0''], globalCostLimits = None\<rparr>"

definition router_demo :: VersionRouter where
  "router_demo =
     \<lparr>registry = reg_demo,
      userPins = [(''alice'', \<lparr>pin_userId = ''alice'', pin_version = ''v2.1'', pinnedAt = 0, reason = None\<rparr>)],
      tenantConfigs = [(''acme'', \<lparr>tc_tenantId = ''acme'', tc_defaultVersion = Some ''v2.0'',
                                  tc_promptOverrides = None, tc_costLimits = None, tc_features = None\<rparr>)],
      globalConfig = Some \<lparr>gc_defaultVersion = ''v1.0'', availableVersions = [''v1.0''],
                            globalCostLimits = None\<rparr>\<rparr>"

definition ctx_demo :: ExecutionContext where
  "ctx_demo = \<lparr>ctx_userId = ''alice'', ctx_tenantId = Some ''acme'', ctx_version = None,
               ctx_input = ''hi''\<rparr>"

text \<open>A router with three users pinned to v2.1 and one to v2.0, and two clocks.\<close>

definition router_pins :: VersionRouter where
  "router_pins =
     \<lparr>registry = reg_demo,
      userPins = [(''u1'', \<lparr>pin_userId = ''u1'', pin_version = ''v2.1'', pinnedAt = 10, reason = None\<rparr>),
                  (''u2'', \<lparr>pin_userId = ''u2'', pin_version = ''v2.0'', pinnedAt = 11, reason = Some ''beta''\<rparr>),
                  (''u3'', \<lparr>pin_userId = ''u3'', pin_version = ''v2.1'', pinnedAt = 12, reason = None\<rparr>),
                  (''u4'', \<lparr>pin_userId = ''u4'', pin_version = ''v2.1'', pinnedAt = 13, reason = None\<rparr>)],
      tenantConfigs = [],
      globalConfig = None\<rparr>"

definition clock_demo :: "nat \<Rightarrow> Date" where
  "clock_demo i = 1000 + i"

definition clock_later :: "nat \<Rightarrow> Date" where
  "clock_later i = 2000 + i"

text \<open>
  A user is pinned to v2.0, then v2.0 is removed from the registry (it is not the
  default version).
\<close>

definition pinned_state :: VersionRouter where
  "pinned_state = snd (pinUser 0 ''alice'' ''v2.0'' None (new_VersionRouter reg12))"

definition removed_state :: VersionRouter where
  "removed_state = pinned_state\<lparr>registry := snd (remove ''v2.0'' (registry pinned_state))\<rparr>"

text \<open>
  The same user is migrated from v2.0 to v1.0 first; then v2.0, which nothing refers to
  any more, is removed.
\<close>

definition migrated_state :: VersionRouter where
  "migrated_state = snd (migrateUsers clock_demo ''v2.0'' ''v1.0'' pinned_state)"

definition retired_state :: VersionRouter where
  "retired_state = migrated_state\<lparr>registry := snd (remove ''v2.0'' (registry migrated_state))\<rparr>"

definition ctx_alice :: ExecutionContext where
  "ctx_alice = \<lparr>ctx_userId = ''alice'', ctx_tenantId = None, ctx_version = None, ctx_input = ''hi''\<rparr>"

text \<open>A global config and a tenant config whose default version is not registered.\<close>

definition gc_missing :: GlobalConfig where
  "gc_missing = \<lparr>gc_defaultVersion = ''v9.9'', availableVersions = [''v9.9''], globalCostLimits = None\<rparr>"

definition tc_missing :: TenantConfig where
  "tc_missing = \<lparr>tc_tenantId = ''acme'', tc_defaultVersion = Some ''v9.9'',
                 tc_promptOverrides = None, tc_costLimits = None, tc_features = None\<rparr>"

section \<open>Lemmas on maps and on presence\<close>

lemma Map_get_set: "Map_get (Map_set k v m) k' = (if k' = k then Some v else Map_get m k')"
  by (induction m) auto

lemma Map_get_delete: "Map_get (Map_delete k m) k' = (if k' = k then None else Map_get m k')"
  by (induction m) auto

lemma Map_has_set: "Map_has (Map_set k v m) k' \<longleftrightarrow> k' = k \<or> Map_has m k'"
  by (simp add: Map_has_def Map_get_set)

lemma Map_has_delete: "Map_has (Map_delete k m) k' \<longleftrightarrow> k' \<noteq> k \<and> Map_has m k'"
  by (simp add: Map_has_def Map_get_delete)

lemma Map_has_keys: "Map_has m k \<longleftrightarrow> k \<in> set (map fst m)"
  by (induction m) (auto simp: Map_has_def)

lemma Map_get_Some_mem: "Map_get m k = Some v \<Longrightarrow> (k, v) \<in> set m"
  by (induction m) (auto split: if_splits)

lemma Map_get_distinct: "distinct (map fst m) \<Longrightarrow> (k, v) \<in> set m \<Longrightarrow> Map_get m k = Some v"
proof (induction m)
  case Nil
  then show ?case by simp
next
  case (Cons a m)
  obtain k' v' where a: "a = (k', v')" by (cases a)
  show ?case
  proof (cases "k' = k")
    case True
    with Cons.prems a have "(k, v) \<notin> set m" by (force simp: image_iff)
    with Cons.prems a True show ?thesis by simp
  next
    case False
    with Cons a show ?thesis by simp
  qed
qed

lemma Map_set_keys: "Map_has m k \<Longrightarrow> map fst (Map_set k v m) = map fst m"
  by (induction m) (auto simp: Map_has_def)

lemma set_Map_set: "set (Map_set k v m) \<subseteq> insert (k, v) (set m)"
  by (induction m) (auto split: if_splits)

lemma set_Map_delete: "set (Map_delete k m) \<subseteq> set m"
  by (induction m) (auto split: if_splits)

lemma case_present:
  "(case present x of None \<Rightarrow> a | Some t \<Rightarrow> f t) = (if truthy x then f (the x) else a)"
  by (cases x) (simp_all add: present_def truthy_def)

lemma present_None_iff: "present x = None \<longleftrightarrow> \<not> truthy x"
  by (cases x) (simp_all add: present_def truthy_def)

lemma present_Some_iff: "present x = Some v \<longleftrightarrow> x = Some v \<and> v \<noteq> []"
  by (cases x) (auto simp: present_def truthy_def)

section \<open>The registry's default version is registered\<close>

lemma reg_inv_new: "reg_inv new_AgentRegistry"
  by (simp add: reg_inv_def new_AgentRegistry_def)

lemma reg_inv_register: "reg_inv r \<Longrightarrow> reg_inv (snd (register c r))"
  by (auto simp: reg_inv_def register_def has_def Map_has_set truthy_def Let_def
           split: option.splits)

lemma reg_inv_setDefaultVersion: "reg_inv r \<Longrightarrow> reg_inv (snd (setDefaultVersion v r))"
  by (auto simp: reg_inv_def setDefaultVersion_def has_def split: option.splits)

lemma reg_inv_remove: "reg_inv r \<Longrightarrow> reg_inv (snd (remove v r))"
  by (auto simp: reg_inv_def remove_def has_def Map_has_delete split: option.splits)

lemma reg_inv_clear: "reg_inv (clear r)"
  by (simp add: reg_inv_def clear_def)

lemma reg_reachable_inv: "reg_reachable r \<Longrightarrow> reg_inv r"
  by (induction rule: reg_reachable.induct)
     (simp_all add: reg_inv_new reg_inv_register reg_inv_setDefaultVersion reg_inv_remove
        reg_inv_clear)

text \<open>
  In a reachable registry no identifier is empty, and a registry that is not empty has
  a default version: the last fallback of \<open>getLatestVersion\<close>, the first registered
  version, is then never taken.
\<close>

lemma reg_reachable_default_set:
  "reg_reachable r \<Longrightarrow>
     (\<forall>k. Map_has (configs r) k \<longrightarrow> k \<noteq> []) \<and> (configs r \<noteq> [] \<longrightarrow> truthy (defaultVersion r))"
proof (induction rule: reg_reachable.induct)
  case reach_new
  then show ?case by (simp add: new_AgentRegistry_def Map_has_def)
next
  case (reach_register r config)
  show ?case
  proof (cases "AgentConfigSchema_parse config")
    case False
    with reach_register show ?thesis by (simp add: register_def)
  next
    case True
    then have v: "ac_version config \<noteq> []" by (simp add: AgentConfigSchema_parse_def)
    have "Map_set (ac_version config) config (configs r) \<noteq> []"
      by (cases "configs r") (auto split: if_splits)
    with True v reach_register show ?thesis
      by (auto simp: register_def Let_def Map_has_set truthy_def)
  qed
next
  case (reach_setDefaultVersion r version)
  then show ?case by (auto simp: setDefaultVersion_def truthy_def)
next
  case (reach_remove r version)
  have "Map_delete version (configs r) \<noteq> [] \<Longrightarrow> configs r \<noteq> []" by auto
  with reach_remove show ?case
    by (auto simp: remove_def Map_has_delete)
next
  case (reach_clear r)
  then show ?case by (simp add: clear_def Map_has_def)
qed

lemma register_cfg:
  "v \<noteq> [] \<Longrightarrow> register (cfg v) r =
     (Inr (), r\<lparr>configs := Map_set v (cfg v) (configs r),
                defaultVersion := (if truthy (defaultVersion r) then defaultVersion r else Some v)\<rparr>)"
  by (simp add: register_def cfg_def AgentConfigSchema_parse_def)

lemma reg12_eq: "reg12 = snd (register (cfg ''v2.0'') (snd (register (cfg ''v1.0'') new_AgentRegistry)))"
  by (simp add: reg12_def register_cfg new_AgentRegistry_def truthy_def)

lemma reg12_reachable: "reg_reachable reg12"
  unfolding reg12_eq by (intro reach_register reach_new)

text \<open>
  C7. In every registry state reachable from a freshly created registry by register,
  setDefaultVersion, remove and clear calls (returning or throwing), a default version
  that is set names a version present in the config mapping.
\<close>

theorem default_version_registered:
  "reg_reachable r \<Longrightarrow> defaultVersion r = Some d \<Longrightarrow> has r d"
  using reg_reachable_inv [of r] by (simp add: reg_inv_def)

theorem default_version_registered_witness:
  "reg_reachable (snd (register (cfg ''v1.0'') new_AgentRegistry))
   \<and> defaultVersion (snd (register (cfg ''v1.0'') new_AgentRegistry)) = Some ''v1.0''
   \<and> has (snd (register (cfg ''v1.0'') new_AgentRegistry)) ''v1.0''"
proof -
  let ?r = "snd (register (cfg ''v1.0'') new_AgentRegistry)"
  have reach: "reg_reachable ?r"
    by (rule reach_register [OF reach_new])
  have dflt: "defaultVersion ?r = Some ''v1.0''"
    by (simp add: register_cfg new_AgentRegistry_def truthy_def)
  from default_version_registered [OF reach dflt] reach dflt show ?thesis
    by simp
qed

section \<open>The example states are reachable\<close>

lemma setGlobalConfig_snd:
  "snd (setGlobalConfig g s) =
     s\<lparr>globalConfig := Some g,
       registry := (if has (registry s) (gc_defaultVersion g)
                    then (registry s)\<lparr>defaultVersion := Some (gc_defaultVersion g)\<rparr>
                    else registry s)\<rparr>"
  by (simp add: setGlobalConfig_def setDefaultVersion_def has_def Let_def)

lemma setGlobalConfig_fst:
  "fst (setGlobalConfig g s) =
     (if has (registry s) (gc_defaultVersion g) then Inr ()
      else Inl (Error (''Default version '' @ gc_defaultVersion g @ '' not found in registry'')))"
  by (simp add: setGlobalConfig_def setDefaultVersion_def has_def Let_def)

lemma reg_demo_eq:
  "reg_demo = snd (register (cfg ''v4.0'') (snd (register (cfg ''v3.0'') (snd (register (cfg ''v2.1'')
     (snd (register (cfg ''v2.0'') (snd (register (cfg ''v1.0'') new_AgentRegistry)))))))))"
  by (simp add: reg_demo_def register_cfg new_AgentRegistry_def truthy_def)

lemma reg_demo_reachable: "reg_reachable reg_demo"
  unfolding reg_demo_eq by (intro reach_register reach_new)

lemma router_demo_eq:
  "router_demo =
     snd (setTenantConfig ''acme''
            \<lparr>tc_tenantId = ''acme'', tc_defaultVersion = Some ''v2.0'',
             tc_promptOverrides = None, tc_costLimits = None, tc_features = None\<rparr>
       (snd (pinUser 0 ''alice'' ''v2.1'' None
         (snd (setGlobalConfig gc_demo (new_VersionRouter reg_demo))))))"
proof -
  have g: "snd (setGlobalConfig gc_demo (new_VersionRouter reg_demo))
        = \<lparr>registry = reg_demo, userPins = [], tenantConfigs = [], globalConfig = Some gc_demo\<rparr>"
    by (simp add: setGlobalConfig_snd new_VersionRouter_def gc_demo_def)
       (simp add: reg_demo_def has_def Map_has_def)
  have h: "has reg_demo ''v2.1''" by (simp add: reg_demo_def has_def Map_has_def)
  show ?thesis
    unfolding g using h
    by (simp add: pinUser_def setTenantConfig_def Let_def router_demo_def gc_demo_def)
qed

lemma router_demo_reachable: "sys_reachable router_demo"
  unfolding router_demo_eq
  by (intro sys_setTenantConfig sys_pinUser sys_setGlobalConfig sys_new reg_demo_reachable)

lemma router_pins_eq:
  "router_pins =
     snd (pinUser 13 ''u4'' ''v2.1'' None (snd (pinUser 12 ''u3'' ''v2.1'' None
       (snd (pinUser 11 ''u2'' ''v2.0'' (Some ''beta'') (snd (pinUser 10 ''u1'' ''v2.1'' None
         (new_VersionRouter reg_demo))))))))"
proof -
  have h: "has reg_demo ''v2.1''" "has reg_demo ''v2.0''"
    by (simp_all add: reg_demo_def has_def Map_has_def)
  show ?thesis
    using h by (simp add: pinUser_def new_VersionRouter_def router_pins_def)
qed

lemma router_pins_reachable: "sys_reachable router_pins"
  unfolding router_pins_eq by (intro sys_pinUser sys_new reg_demo_reachable)

section \<open>remove\<close>

text \<open>
  C8. For every registry state and version identifier: when the version is the current
  default, remove throws (the message says that the default version cannot be removed)
  and returns the registry unchanged, so a registered default is still present; in a
  reachable registry it is present. Otherwise remove returns whether the version was
  registered, the version is absent afterwards, and every other entry and the default
  pointer are as before.
\<close>

theorem remove_spec:
  "(defaultVersion r = Some version \<longrightarrow>
      remove version r =
        (Inl (Error (''Cannot remove default version '' @ version @ ''. Set a new default first.'')), r)
      \<and> (reg_reachable r \<longrightarrow> has (snd (remove version r)) version))
   \<and> (defaultVersion r \<noteq> Some version \<longrightarrow>
      fst (remove version r) = Inr (has r version)
      \<and> \<not> has (snd (remove version r)) version
      \<and> (\<forall>v. v \<noteq> version \<longrightarrow> get (snd (remove version r)) v = get r v)
      \<and> defaultVersion (snd (remove version r)) = defaultVersion r)"
proof -
  have "reg_reachable r \<Longrightarrow> defaultVersion r = Some version \<Longrightarrow> has r version"
    using reg_reachable_inv [of r] by (simp add: reg_inv_def)
  then show ?thesis
    by (auto simp: remove_def has_def get_def Map_has_delete Map_get_delete)
qed

theorem remove_spec_witness:
  "defaultVersion reg12 = Some ''v1.0''
   \<and> fst (remove ''v1.0'' reg12) = Inl (Error ''Cannot remove default version v1.0. Set a new default first.'')
   \<and> snd (remove ''v1.0'' reg12) = reg12
   \<and> reg_reachable reg12
   \<and> has (snd (remove ''v1.0'' reg12)) ''v1.0''
   \<and> defaultVersion reg12 \<noteq> Some ''v2.0''
   \<and> fst (remove ''v2.0'' reg12) = Inr True
   \<and> \<not> has (snd (remove ''v2.0'' reg12)) ''v2.0''
   \<and> get (snd (remove ''v2.0'' reg12)) ''v1.0'' = Some (cfg ''v1.0'')"
proof -
  have d: "defaultVersion reg12 = Some ''v1.0''" by (simp add: reg12_def)
  have n: "defaultVersion reg12 \<noteq> Some ''v2.0''" by (simp add: reg12_def)
  have h: "has reg12 ''v2.0''" by (simp add: reg12_def has_def Map_has_def)
  have g: "get reg12 ''v1.0'' = Some (cfg ''v1.0'')" by (simp add: reg12_def get_def)
  have ne: "''v1.0'' \<noteq> ''v2.0''" by simp
  from remove_spec [of reg12 "''v1.0''"] d reg12_reachable
  have a: "remove ''v1.0'' reg12 =
      (Inl (Error (''Cannot remove default version '' @ ''v1.0'' @ ''. Set a new default first.'')), reg12)"
    and b: "has (snd (remove ''v1.0'' reg12)) ''v1.0''"
    by blast+
  from remove_spec [of reg12 "''v2.0''"] n
  have c: "fst (remove ''v2.0'' reg12) = Inr (has reg12 ''v2.0'')"
    and e: "\<not> has (snd (remove ''v2.0'' reg12)) ''v2.0''"
    and f: "\<forall>v. v \<noteq> ''v2.0'' \<longrightarrow> get (snd (remove ''v2.0'' reg12)) v = get reg12 v"
    by blast+
  from f ne g have f': "get (snd (remove ''v2.0'' reg12)) ''v1.0'' = Some (cfg ''v1.0'')"
    by metis
  from a have a1: "fst (remove ''v1.0'' reg12) = Inl (Error ''Cannot remove default version v1.0. Set a new default first.'')"
    and a2: "snd (remove ''v1.0'' reg12) = reg12"
    by simp_all
  from c h have c': "fst (remove ''v2.0'' reg12) = Inr True" by simp
  from d a1 a2 reg12_reachable b n c' e f' show ?thesis by blast
qed

section \<open>getLatestVersion\<close>

subsection \<open>The sort puts a greatest triple first\<close>

lemma semver_match_version: "semver_match v = Some s \<Longrightarrow> sv_version s = v"
  by (auto simp: semver_match_def Let_def split: list.splits if_splits)

lemma minus_sign_le: "minus_sign x y \<le> 0 \<longleftrightarrow> number_less x y \<or> x = y"
  by (cases x; cases y) (auto simp: minus_sign_def number_less_def sgn_if)

lemma number_less_irrefl: "\<not> number_less x x"
  by (cases x) (simp_all add: number_less_def)

lemma number_less_trans: "number_less x y \<Longrightarrow> number_less y z \<Longrightarrow> number_less x z"
  by (cases x; cases y; cases z) (simp_all add: number_less_def)

lemma number_less_total: "number_less x y \<or> x = y \<or> number_less y x"
  by (cases x; cases y) (auto simp: number_less_def)

lemma compare_desc_le: "compare_desc a b \<le> 0 \<longleftrightarrow> sv_le b a"
  using number_less_irrefl
  by (auto simp: compare_desc_def sv_le_def number_triple_le_def minus_sign_le)

lemma number_triple_le_trans:
  "number_triple_le t u \<Longrightarrow> number_triple_le u w \<Longrightarrow> number_triple_le t w"
proof -
  obtain a b c where t: "t = (a, b, c)" by (cases t)
  obtain a' b' c' where u: "u = (a', b', c')" by (cases u)
  obtain a'' b'' c'' where w: "w = (a'', b'', c'')" by (cases w)
  assume "number_triple_le t u" "number_triple_le u w"
  then show ?thesis
    unfolding t u w number_triple_le_def prod.case
    using number_less_trans by blast
qed

lemma number_triple_le_total: "number_triple_le t u \<or> number_triple_le u t"
proof -
  obtain a b c where t: "t = (a, b, c)" by (cases t)
  obtain a' b' c' where u: "u = (a', b', c')" by (cases u)
  show ?thesis
    unfolding t u number_triple_le_def prod.case
    using number_less_total [of a a'] number_less_total [of b b'] number_less_total [of c c']
    by blast
qed

lemma number_triple_le_refl: "number_triple_le t t"
  by (cases t) (simp add: number_triple_le_def)

lemma sv_le_trans: "sv_le a b \<Longrightarrow> sv_le b c \<Longrightarrow> sv_le a c"
  unfolding sv_le_def by (rule number_triple_le_trans)

lemma sv_le_total: "sv_le a b \<or> sv_le b a"
  unfolding sv_le_def by (rule number_triple_le_total)

lemma sv_le_refl: "sv_le a a"
  unfolding sv_le_def by (rule number_triple_le_refl)

lemma set_insort_cmp: "set (insort_cmp cmp x ys) = insert x (set ys)"
  by (induction ys) auto

lemma set_sort_cmp: "set (sort_cmp cmp xs) = set xs"
  by (induction xs) (simp_all add: sort_cmp_def set_insort_cmp)

lemma hd_insort_cmp:
  "hd (insort_cmp cmp x ys) = (if ys = [] \<or> cmp x (hd ys) \<le> 0 then x else hd ys)"
  by (cases ys) auto

lemma sort_cmp_Cons: "sort_cmp cmp (x # xs) = insort_cmp cmp x (sort_cmp cmp xs)"
  by (simp add: sort_cmp_def)

lemma sort_cmp_Nil_iff: "sort_cmp cmp xs = [] \<longleftrightarrow> xs = []"
  using set_sort_cmp [of cmp xs] by (metis set_empty)

lemma hd_sort_desc_greatest:
  "xs \<noteq> [] \<Longrightarrow> y \<in> set xs \<Longrightarrow> sv_le y (hd (sort_cmp compare_desc xs))"
proof (induction xs arbitrary: y)
  case Nil
  then show ?case by simp
next
  case (Cons x xs)
  show ?case
  proof (cases "xs = []")
    case True
    with Cons.prems show ?thesis
      by (simp add: sort_cmp_def sv_le_refl)
  next
    case False
    let ?h = "hd (sort_cmp compare_desc xs)"
    have ne: "sort_cmp compare_desc xs \<noteq> []"
      using False by (simp add: sort_cmp_Nil_iff)
    have ih: "\<And>z. z \<in> set xs \<Longrightarrow> sv_le z ?h"
      using Cons.IH False by blast
    show ?thesis
    proof (cases "compare_desc x ?h \<le> 0")
      case True
      then have hx: "sv_le ?h x" by (simp add: compare_desc_le)
      have "hd (sort_cmp compare_desc (x # xs)) = x"
        using True ne by (simp add: sort_cmp_Cons hd_insort_cmp)
      moreover have "sv_le y x"
        using Cons.prems(2) ih hx sv_le_trans sv_le_refl by auto
      ultimately show ?thesis by simp
    next
      case False
      then have xh: "sv_le x ?h"
        using sv_le_total [of x ?h] by (simp add: compare_desc_le)
      have "hd (sort_cmp compare_desc (x # xs)) = ?h"
        using False ne by (simp add: sort_cmp_Cons hd_insort_cmp)
      moreover have "sv_le y ?h"
        using Cons.prems(2) ih xh by auto
      ultimately show ?thesis by simp
    qed
  qed
qed

lemma set_map_filter: "set (List.map_filter f xs) = {y. \<exists>x \<in> set xs. f x = Some y}"
  by (induction xs) (auto simp: List.map_filter_def)

lemma semanticVersions_set:
  "set (semanticVersions r) = {s. \<exists>v \<in> set (getVersions r). semver_match v = Some s}"
  by (simp add: semanticVersions_def set_sort_cmp set_map_filter)

lemma semanticVersions_Nil_iff:
  "semanticVersions r = [] \<longleftrightarrow> (\<forall>v \<in> set (getVersions r). semver_match v = None)"
proof
  assume e: "semanticVersions r = []"
  show "\<forall>v \<in> set (getVersions r). semver_match v = None"
  proof
    fix v assume v: "v \<in> set (getVersions r)"
    show "semver_match v = None"
    proof (cases "semver_match v")
      case None then show ?thesis .
    next
      case (Some s)
      with v have "s \<in> set (semanticVersions r)"
        unfolding semanticVersions_set by blast
      with e show ?thesis by simp
    qed
  qed
next
  assume a: "\<forall>v \<in> set (getVersions r). semver_match v = None"
  have "set (semanticVersions r) = {}"
    unfolding semanticVersions_set using a by auto
  then show "semanticVersions r = []" by simp
qed

lemma semanticVersions_hd:
  assumes "semanticVersions r = s # ss"
  shows "sv_version s \<in> set (getVersions r)" and "semver_match (sv_version s) = Some s"
    and "\<And>w t. w \<in> set (getVersions r) \<Longrightarrow> semver_match w = Some t \<Longrightarrow> sv_le t s"
proof -
  let ?ms = "List.map_filter semver_match (getVersions r)"
  have "s \<in> set (semanticVersions r)" using assms by simp
  then obtain v where v: "v \<in> set (getVersions r)" "semver_match v = Some s"
    by (auto simp: semanticVersions_set)
  then show "sv_version s \<in> set (getVersions r)" "semver_match (sv_version s) = Some s"
    by (simp_all add: semver_match_version)
  fix w t assume "w \<in> set (getVersions r)" "semver_match w = Some t"
  then have t: "t \<in> set ?ms" by (auto simp: set_map_filter)
  then have "?ms \<noteq> []" by auto
  from hd_sort_desc_greatest [OF this t] assms show "sv_le t s"
    by (simp add: semanticVersions_def)
qed

lemma getLatestVersion_None_iff: "getLatestVersion r = None \<longleftrightarrow> configs r = []"
  by (auto simp: getLatestVersion_def getVersions_def truthy_def split: list.splits option.splits)

lemma getLatestVersion_semantic:
  assumes "v \<in> set (getVersions r)" "semver_match v = Some s0"
  shows "\<exists>s. getLatestVersion r = Some (sv_version s) \<and> sv_version s \<in> set (getVersions r)
           \<and> semver_match (sv_version s) = Some s
           \<and> (\<forall>w \<in> set (getVersions r). \<forall>t. semver_match w = Some t \<longrightarrow> sv_le t s)"
proof -
  from assms have "semanticVersions r \<noteq> []"
    by (auto simp: semanticVersions_Nil_iff)
  then obtain s ss where s: "semanticVersions r = s # ss"
    by (cases "semanticVersions r") auto
  from assms(1) obtain v0 vs where vs: "getVersions r = v0 # vs"
    by (cases "getVersions r") auto
  have "getLatestVersion r = Some (sv_version s)"
    by (simp add: getLatestVersion_def s vs)
  with semanticVersions_hd [OF s] show ?thesis by blast
qed

lemma getLatestVersion_fallback:
  assumes "configs r \<noteq> []" "\<forall>v \<in> set (getVersions r). semver_match v = None"
  shows "getLatestVersion r = (if truthy (defaultVersion r) then defaultVersion r else Some (hd (getVersions r)))"
proof -
  from assms(2) have "semanticVersions r = []" by (simp add: semanticVersions_Nil_iff)
  moreover from assms(1) obtain v0 vs where "getVersions r = v0 # vs"
    by (cases "configs r") (auto simp: getVersions_def)
  ultimately show ?thesis by (simp add: getLatestVersion_def)
qed

subsection \<open>The regular expression matches the pattern\<close>

lemma is_digit_iff: "is_digit c \<longleftrightarrow> digit_value c \<noteq> None"
proof
  assume "is_digit c"
  then have "48 \<le> (of_char c :: nat)" "(of_char c :: nat) \<le> 57"
    by (simp_all add: is_digit_def)
  then have "(of_char c :: nat) = 48 \<or> (of_char c :: nat) = 49 \<or> (of_char c :: nat) = 50
      \<or> (of_char c :: nat) = 51 \<or> (of_char c :: nat) = 52 \<or> (of_char c :: nat) = 53
      \<or> (of_char c :: nat) = 54 \<or> (of_char c :: nat) = 55 \<or> (of_char c :: nat) = 56
      \<or> (of_char c :: nat) = 57"
    by arith
  moreover have "\<And>d. (of_char c :: nat) = of_char d \<Longrightarrow> c = d"
    by (simp only: of_char_eq_iff)
  from this [of "CHR ''0''"] this [of "CHR ''1''"] this [of "CHR ''2''"] this [of "CHR ''3''"]
    this [of "CHR ''4''"] this [of "CHR ''5''"] this [of "CHR ''6''"] this [of "CHR ''7''"]
    this [of "CHR ''8''"] this [of "CHR ''9''"]
  have "(of_char c :: nat) = 48 \<Longrightarrow> c = CHR ''0''" "(of_char c :: nat) = 49 \<Longrightarrow> c = CHR ''1''"
    "(of_char c :: nat) = 50 \<Longrightarrow> c = CHR ''2''" "(of_char c :: nat) = 51 \<Longrightarrow> c = CHR ''3''"
    "(of_char c :: nat) = 52 \<Longrightarrow> c = CHR ''4''" "(of_char c :: nat) = 53 \<Longrightarrow> c = CHR ''5''"
    "(of_char c :: nat) = 54 \<Longrightarrow> c = CHR ''6''" "(of_char c :: nat) = 55 \<Longrightarrow> c = CHR ''7''"
    "(of_char c :: nat) = 56 \<Longrightarrow> c = CHR ''8''" "(of_char c :: nat) = 57 \<Longrightarrow> c = CHR ''9''"
    by simp_all
  ultimately have "c = CHR ''0'' \<or> c = CHR ''1'' \<or> c = CHR ''2'' \<or> c = CHR ''3'' \<or> c = CHR ''4''
      \<or> c = CHR ''5'' \<or> c = CHR ''6'' \<or> c = CHR ''7'' \<or> c = CHR ''8'' \<or> c = CHR ''9''"
    by blast
  then show "digit_value c \<noteq> None"
    by (auto simp: digit_value_def)
next
  assume "digit_value c \<noteq> None"
  then have "c = CHR ''0'' \<or> c = CHR ''1'' \<or> c = CHR ''2'' \<or> c = CHR ''3'' \<or> c = CHR ''4''
      \<or> c = CHR ''5'' \<or> c = CHR ''6'' \<or> c = CHR ''7'' \<or> c = CHR ''8'' \<or> c = CHR ''9''"
    by (simp add: digit_value_def split: if_splits)
  then show "is_digit c"
    by (auto simp: is_digit_def)
qed

lemma digit_value_of_char: "digit_value c = Some d \<Longrightarrow> (of_char c :: nat) - 48 = d"
  by (auto simp: digit_value_def split: if_splits)

lemma digits_iff: "digits ds \<longleftrightarrow> ds \<noteq> [] \<and> (\<forall>c \<in> set ds. is_digit c)"
  by (simp add: digits_def list_all_iff is_digit_iff)

lemma no_digit_next_iff: "no_digit_next rest \<longleftrightarrow> rest = [] \<or> \<not> is_digit (hd rest)"
  by (cases rest) (simp_all add: no_digit_next_def is_digit_iff)

lemma decimal_snoc: "decimal (ds @ [c]) = 10 * decimal ds + the (digit_value c)"
  by (simp add: decimal_def)

lemma foldl_decimal:
  "\<forall>c \<in> set ds. is_digit c \<Longrightarrow>
   foldl (\<lambda>acc c. 10 * acc + ((of_char c :: nat) - 48)) 0 ds = decimal ds"
proof (induction ds rule: rev_induct)
  case Nil
  then show ?case by (simp add: decimal_def)
next
  case (snoc c ds)
  then have "is_digit c" by simp
  then obtain d where d: "digit_value c = Some d" by (auto simp: is_digit_iff)
  with snoc digit_value_of_char [OF d] show ?case
    by (simp add: decimal_snoc)
qed

lemma parseInt10_decimal: "digits ds \<Longrightarrow> parseInt10 ds = round_double (decimal ds)"
  by (simp add: parseInt10_def digits_iff foldl_decimal)

lemma parseInt10_zero: "parseInt10 ''0'' = Num 0"
  by (simp add: parseInt10_def round_double_def)

lemma takeWhile_digits:
  "digits ds \<Longrightarrow> no_digit_next rest \<Longrightarrow> takeWhile is_digit (ds @ rest) = ds"
  by (cases rest) (auto simp: digits_iff no_digit_next_iff takeWhile_append2)

lemma dropWhile_digits:
  "digits ds \<Longrightarrow> no_digit_next rest \<Longrightarrow> dropWhile is_digit (ds @ rest) = rest"
  by (cases rest) (auto simp: digits_iff no_digit_next_iff dropWhile_append2)

lemma not_digit_dot: "\<not> is_digit CHR ''.''" and not_digit_v: "\<not> is_digit CHR ''v''"
  by (simp_all add: is_digit_def)

lemma no_digit_next_dot: "no_digit_next (CHR ''.'' # xs)"
  by (simp add: no_digit_next_iff not_digit_dot)

lemma strip_v:
  assumes "p = [] \<or> p = ''v''" "digits a"
  shows "(case p @ a @ xs of c # cs \<Rightarrow> if c = CHR ''v'' then cs else p @ a @ xs | [] \<Rightarrow> p @ a @ xs)
           = a @ xs"
proof -
  from assms(2) obtain d ds where a: "a = d # ds" and d: "is_digit d"
    by (cases a) (auto simp: digits_iff)
  from d have "d \<noteq> CHR ''v''" using not_digit_v by auto
  with assms(1) a show ?thesis by auto
qed

lemma semver_match_prefix:
  assumes "p = [] \<or> p = ''v''" "digits a" "digits b" "no_digit_next r3"
  shows "semver_match (p @ a @ ''.'' @ b @ r3) =
     Some \<lparr>sv_version = p @ a @ ''.'' @ b @ r3,
           major = parseInt10 a, minor = parseInt10 b,
           patch = parseInt10
             (let m3 = (case r3 of
                          [] \<Rightarrow> []
                        | d' # r4 \<Rightarrow> if d' = CHR ''.'' then takeWhile is_digit r4 else [])
              in if m3 = [] then ''0'' else m3)\<rparr>"
proof -
  let ?v = "p @ a @ ''.'' @ b @ r3"
  have s1: "(case ?v of c # cs \<Rightarrow> if c = CHR ''v'' then cs else ?v | [] \<Rightarrow> ?v) = a @ ''.'' @ b @ r3"
    by (rule strip_v [OF assms(1,2)])
  have m1: "takeWhile is_digit (a @ ''.'' @ b @ r3) = a"
    and r1: "dropWhile is_digit (a @ ''.'' @ b @ r3) = ''.'' @ b @ r3"
    using takeWhile_digits [OF assms(2) no_digit_next_dot]
      dropWhile_digits [OF assms(2) no_digit_next_dot] by simp_all
  have a: "a \<noteq> []" and b: "b \<noteq> []" using assms(2,3) by (simp_all add: digits_iff)
  have m2: "takeWhile is_digit (b @ r3) = b" and r3: "dropWhile is_digit (b @ r3) = r3"
    by (rule takeWhile_digits [OF assms(3,4)], rule dropWhile_digits [OF assms(3,4)])
  show ?thesis
    unfolding semver_match_def s1 Let_def m1 r1
    using a b by (simp add: m2 r3)
qed

lemma semver_pattern_match:
  assumes "semver_pattern v a b c"
  shows "semver_match v =
     Some \<lparr>sv_version = v, major = round_double a, minor = round_double b, patch = round_double c\<rparr>"
  using assms
proof (cases rule: semver_pattern.cases)
  case (with_patch p da db dc rest)
  have n: "no_digit_next (''.'' @ dc @ rest)" by (simp add: no_digit_next_dot)
  have t: "takeWhile is_digit (dc @ rest) = dc"
    by (rule takeWhile_digits [OF with_patch(8,9)])
  have dc: "dc \<noteq> []" using with_patch(8) by (simp add: digits_iff)
  from semver_match_prefix [OF with_patch(5,6,7) n] with_patch(1,2,3,4) t dc
  show ?thesis
    by (simp add: parseInt10_decimal [OF with_patch(6)] parseInt10_decimal [OF with_patch(7)]
        parseInt10_decimal [OF with_patch(8)])
next
  case (without_patch p da db rest)
  have n: "no_digit_next rest"
    using without_patch(8) by (cases rest) (simp_all add: no_patch_next_def no_digit_next_def)
  have m3: "(case rest of [] \<Rightarrow> [] | d' # r4 \<Rightarrow> if d' = CHR ''.'' then takeWhile is_digit r4 else []) = []"
  proof (cases rest)
    case Nil
    then show ?thesis by simp
  next
    case (Cons d' r4)
    show ?thesis
    proof (cases "d' = CHR ''.''")
      case True
      with without_patch(8) Cons have "no_digit_next r4" by (simp add: no_patch_next_def)
      then have "takeWhile is_digit r4 = []"
        by (cases r4) (simp_all add: no_digit_next_iff)
      with Cons True show ?thesis by simp
    next
      case False
      with Cons show ?thesis by simp
    qed
  qed
  from semver_match_prefix [OF without_patch(5,6,7) n] without_patch(1,2,3,4) m3
  show ?thesis
    by (simp add: parseInt10_decimal [OF without_patch(6)] parseInt10_decimal [OF without_patch(7)]
        parseInt10_zero round_double_def)
qed

lemma digits_takeWhile: "takeWhile is_digit xs \<noteq> [] \<Longrightarrow> digits (takeWhile is_digit xs)"
  by (auto simp: digits_iff dest: set_takeWhileD)

lemma no_digit_next_dropWhile: "no_digit_next (dropWhile is_digit xs)"
  unfolding no_digit_next_iff using hd_dropWhile [of is_digit xs] by blast

lemma no_digit_next_takeWhile_Nil: "takeWhile is_digit xs = [] \<Longrightarrow> no_digit_next xs"
  by (cases xs) (auto simp: no_digit_next_iff split: if_splits)

lemma semver_match_pattern:
  assumes "semver_match v = Some s"
  shows "\<exists>a b c. semver_pattern v a b c"
proof -
  define s1 where "s1 = (case v of c # cs \<Rightarrow> if c = CHR ''v'' then cs else v | [] \<Rightarrow> v)"
  define m1 where "m1 = takeWhile is_digit s1"
  define r1 where "r1 = dropWhile is_digit s1"
  from assms have m1: "m1 \<noteq> []"
    unfolding semver_match_def s1_def [symmetric] Let_def m1_def [symmetric]
    by (auto split: if_splits)
  from assms m1 obtain r2 where r1: "r1 = CHR ''.'' # r2"
    unfolding semver_match_def s1_def [symmetric] Let_def m1_def [symmetric] r1_def [symmetric]
    by (auto split: if_splits list.splits)
  define m2 where "m2 = takeWhile is_digit r2"
  define r3 where "r3 = dropWhile is_digit r2"
  from assms m1 r1 have m2: "m2 \<noteq> []"
    unfolding semver_match_def s1_def [symmetric] Let_def m1_def [symmetric] r1_def [symmetric]
    by (auto simp: m2_def split: if_splits)
  obtain p where p: "p = [] \<or> p = ''v''" and v: "v = p @ s1"
  proof (cases v)
    case Nil
    then have "v = [] @ s1" by (simp add: s1_def)
    then show ?thesis using that by blast
  next
    case (Cons c cs)
    show ?thesis
    proof (cases "c = CHR ''v''")
      case True
      with Cons have "v = ''v'' @ s1" by (simp add: s1_def)
      then show ?thesis using that by blast
    next
      case False
      with Cons have "v = [] @ s1" by (simp add: s1_def)
      then show ?thesis using that by blast
    qed
  qed
  have "s1 = m1 @ r1" by (simp add: m1_def r1_def)
  moreover have "r2 = m2 @ r3" by (simp add: m2_def r3_def)
  ultimately have v': "v = p @ m1 @ ''.'' @ m2 @ r3" using v r1 by simp
  have d1: "digits m1" and d2: "digits m2"
    using m1 m2 by (simp_all add: m1_def m2_def digits_takeWhile)
  have n3: "no_digit_next r3" by (simp add: r3_def no_digit_next_dropWhile)
  show ?thesis
  proof (cases r3)
    case Nil
    then have "no_patch_next r3" by (simp add: no_patch_next_def)
    from without_patch [OF p d1 d2 this] v' show ?thesis by blast
  next
    case (Cons d' r4)
    show ?thesis
    proof (cases "d' = CHR ''.'' \<and> takeWhile is_digit r4 \<noteq> []")
      case True
      define m3 where "m3 = takeWhile is_digit r4"
      define rest where "rest = dropWhile is_digit r4"
      have d3: "digits m3" using True by (simp add: m3_def digits_takeWhile)
      have nr: "no_digit_next rest" by (simp add: rest_def no_digit_next_dropWhile)
      have "r4 = m3 @ rest" by (simp add: m3_def rest_def)
      with Cons True v' have "v = p @ m1 @ ''.'' @ m2 @ ''.'' @ m3 @ rest" by simp
      with with_patch [OF p d1 d2 d3 nr] show ?thesis by metis
    next
      case False
      from n3 Cons have nd: "digit_value d' = None" by (simp add: no_digit_next_def)
      have "no_patch_next r3"
      proof (cases "d' = CHR ''.''")
        case True
        with False have "takeWhile is_digit r4 = []" by simp
        then have "no_digit_next r4" by (rule no_digit_next_takeWhile_Nil)
        with Cons nd show ?thesis by (simp add: no_patch_next_def)
      next
        case False
        with Cons nd show ?thesis by (simp add: no_patch_next_def)
      qed
      from without_patch [OF p d1 d2 this] v' show ?thesis by blast
    qed
  qed
qed

lemma semver_pattern_iff_match:
  "(\<exists>a b c. semver_pattern v a b c) \<longleftrightarrow> semver_match v \<noteq> None"
  using semver_match_pattern [of v] semver_pattern_match [of v] by (metis option.distinct(1) not_Some_eq)

subsection \<open>Concrete identifiers\<close>

lemma round_double_small: "n < 2 ^ 53 \<Longrightarrow> round_double n = Num n"
  by (simp add: round_double_def)

lemma round_double_2_53: "round_double 9007199254740992 = Num 9007199254740992"
  by (simp add: round_double_def Let_def bit_length.simps)

lemma round_double_2_53_1: "round_double 9007199254740993 = Num 9007199254740992"
  by (simp add: round_double_def Let_def bit_length.simps)

lemma js_exact_small: "n \<le> 2 ^ 53 \<Longrightarrow> js_exact n"
proof -
  assume "n \<le> 2 ^ 53"
  then have "n < 2 ^ 53 \<or> n = 9007199254740992" by auto
  then show ?thesis
    using round_double_small [of n] round_double_2_53 by (auto simp: js_exact_def)
qed

lemma js_triple_le_exact:
  assumes "js_exact a" "js_exact b" "js_exact c" "js_exact a'" "js_exact b'" "js_exact c'"
  shows "js_triple_le (a, b, c) (a', b', c') \<longleftrightarrow> triple_le (a, b, c) (a', b', c')"
  using assms
  by (auto simp: js_triple_le_def triple_le_def number_triple_le_def js_exact_def number_less_def)

lemma pattern_v1_0: "semver_pattern ''v1.0'' 1 0 0"
  using without_patch [of "''v''" "''1''" "''0''" "[]"]
  by (simp add: digits_def digit_value_def no_patch_next_def decimal_def)

lemma pattern_v2_0: "semver_pattern ''v2.0'' 2 0 0"
  using without_patch [of "''v''" "''2''" "''0''" "[]"]
  by (simp add: digits_def digit_value_def no_patch_next_def decimal_def)

lemma pattern_v2_1: "semver_pattern ''v2.1'' 2 1 0"
  using without_patch [of "''v''" "''2''" "''1''" "[]"]
  by (simp add: digits_def digit_value_def no_patch_next_def decimal_def)

lemma pattern_v10_0: "semver_pattern ''v10.0'' 10 0 0"
  using without_patch [of "''v''" "''10''" "''0''" "[]"]
  by (simp add: digits_def digit_value_def no_patch_next_def decimal_def)

lemma pattern_suffix: "semver_pattern ''1.2.3-beta'' 1 2 3"
  using with_patch [of "[]" "''1''" "''2''" "''3''" "''-beta''"]
  by (simp add: digits_def digit_value_def no_digit_next_def decimal_def)

lemma pattern_big: "semver_pattern ''v9007199254740992.0'' 9007199254740992 0 0"
  using without_patch [of "''v''" "''9007199254740992''" "''0''" "[]"]
  by (simp add: digits_def digit_value_def no_patch_next_def decimal_def)

lemma pattern_big_1: "semver_pattern ''v9007199254740993.0'' 9007199254740993 0 0"
  using without_patch [of "''v''" "''9007199254740993''" "''0''" "[]"]
  by (simp add: digits_def digit_value_def no_patch_next_def decimal_def)

lemma semver_match_v1_0:
  "semver_match ''v1.0'' = Some \<lparr>sv_version = ''v1.0'', major = Num 1, minor = Num 0, patch = Num 0\<rparr>"
  using semver_pattern_match [OF pattern_v1_0] by (simp add: round_double_def)

lemma semver_match_v2_0:
  "semver_match ''v2.0'' = Some \<lparr>sv_version = ''v2.0'', major = Num 2, minor = Num 0, patch = Num 0\<rparr>"
  using semver_pattern_match [OF pattern_v2_0] by (simp add: round_double_def)

lemma semver_match_v2_1:
  "semver_match ''v2.1'' = Some \<lparr>sv_version = ''v2.1'', major = Num 2, minor = Num 1, patch = Num 0\<rparr>"
  using semver_pattern_match [OF pattern_v2_1] by (simp add: round_double_def)

lemma semver_match_v10_0:
  "semver_match ''v10.0'' = Some \<lparr>sv_version = ''v10.0'', major = Num 10, minor = Num 0, patch = Num 0\<rparr>"
  using semver_pattern_match [OF pattern_v10_0] by (simp add: round_double_def)

lemma semver_match_big:
  "semver_match ''v9007199254740992.0'' =
     Some \<lparr>sv_version = ''v9007199254740992.0'', major = Num 9007199254740992, minor = Num 0,
           patch = Num 0\<rparr>"
  using semver_pattern_match [OF pattern_big] by (simp add: round_double_2_53 round_double_small)

lemma semver_match_big_1:
  "semver_match ''v9007199254740993.0'' =
     Some \<lparr>sv_version = ''v9007199254740993.0'', major = Num 9007199254740992, minor = Num 0,
           patch = Num 0\<rparr>"
  using semver_pattern_match [OF pattern_big_1] by (simp add: round_double_2_53_1 round_double_small)

lemma semver_match_stable: "semver_match ''stable'' = None"
  by (simp add: semver_match_def is_digit_def)

lemma semver_match_canary: "semver_match ''canary'' = None"
  by (simp add: semver_match_def is_digit_def)

lemma semver_match_no_minor: "semver_match ''v1.'' = None"
  by (simp add: semver_match_def is_digit_def)

lemma latest_example1:
  assumes "set (getVersions r) = {''v1.0'', ''v2.0'', ''v2.1''}"
  shows "getLatestVersion r = Some ''v2.1''"
proof -
  have m: "''v2.1'' \<in> set (getVersions r)" using assms by simp
  from getLatestVersion_semantic [OF m semver_match_v2_1] obtain s where
    l: "getLatestVersion r = Some (sv_version s)" and
    i: "sv_version s \<in> set (getVersions r)" and
    p: "semver_match (sv_version s) = Some s" and
    g: "\<forall>w \<in> set (getVersions r). \<forall>t. semver_match w = Some t \<longrightarrow> sv_le t s"
    by blast
  from g m semver_match_v2_1
  have t: "sv_le \<lparr>sv_version = ''v2.1'', major = Num 2, minor = Num 1, patch = Num 0\<rparr> s"
    by blast
  from i assms have "sv_version s = ''v1.0'' \<or> sv_version s = ''v2.0'' \<or> sv_version s = ''v2.1''"
    by simp
  then have "sv_version s = ''v2.1''"
  proof (elim disjE)
    assume a: "sv_version s = ''v1.0''"
    with p semver_match_v1_0
    have "s = \<lparr>sv_version = ''v1.0'', major = Num 1, minor = Num 0, patch = Num 0\<rparr>" by simp
    with t show ?thesis by (simp add: sv_le_def number_triple_le_def number_less_def)
  next
    assume a: "sv_version s = ''v2.0''"
    with p semver_match_v2_0
    have "s = \<lparr>sv_version = ''v2.0'', major = Num 2, minor = Num 0, patch = Num 0\<rparr>" by simp
    with t show ?thesis by (simp add: sv_le_def number_triple_le_def number_less_def)
  qed
  with l show ?thesis by simp
qed

lemma latest_example2:
  assumes "set (getVersions r) = {''v1.0'', ''v10.0'', ''v2.0''}"
  shows "getLatestVersion r = Some ''v10.0''"
proof -
  have m: "''v10.0'' \<in> set (getVersions r)" using assms by simp
  from getLatestVersion_semantic [OF m semver_match_v10_0] obtain s where
    l: "getLatestVersion r = Some (sv_version s)" and
    i: "sv_version s \<in> set (getVersions r)" and
    p: "semver_match (sv_version s) = Some s" and
    g: "\<forall>w \<in> set (getVersions r). \<forall>t. semver_match w = Some t \<longrightarrow> sv_le t s"
    by blast
  from g m semver_match_v10_0
  have t: "sv_le \<lparr>sv_version = ''v10.0'', major = Num 10, minor = Num 0, patch = Num 0\<rparr> s"
    by blast
  from i assms have "sv_version s = ''v1.0'' \<or> sv_version s = ''v10.0'' \<or> sv_version s = ''v2.0''"
    by simp
  then have "sv_version s = ''v10.0''"
  proof (elim disjE)
    assume a: "sv_version s = ''v1.0''"
    with p semver_match_v1_0
    have "s = \<lparr>sv_version = ''v1.0'', major = Num 1, minor = Num 0, patch = Num 0\<rparr>" by simp
    with t show ?thesis by (simp add: sv_le_def number_triple_le_def number_less_def)
  next
    assume a: "sv_version s = ''v2.0''"
    with p semver_match_v2_0
    have "s = \<lparr>sv_version = ''v2.0'', major = Num 2, minor = Num 0, patch = Num 0\<rparr>" by simp
    with t show ?thesis by (simp add: sv_le_def number_triple_le_def number_less_def)
  qed
  with l show ?thesis by simp
qed

lemma getLatestVersion_pattern:
  assumes "v \<in> set (getVersions r)" "semver_pattern v a0 b0 c0"
  shows "\<exists>w a b c. getLatestVersion r = Some w \<and> w \<in> set (getVersions r) \<and> semver_pattern w a b c
           \<and> (\<forall>u \<in> set (getVersions r). \<forall>a' b' c'. semver_pattern u a' b' c' \<longrightarrow>
                 js_triple_le (a', b', c') (a, b, c)
                 \<and> (js_exact a \<and> js_exact b \<and> js_exact c
                      \<and> js_exact a' \<and> js_exact b' \<and> js_exact c' \<longrightarrow>
                    triple_le (a', b', c') (a, b, c)))"
proof -
  from getLatestVersion_semantic [OF assms(1) semver_pattern_match [OF assms(2)]] obtain s where
    l: "getLatestVersion r = Some (sv_version s)" and
    i: "sv_version s \<in> set (getVersions r)" and
    p: "semver_match (sv_version s) = Some s" and
    g: "\<forall>w \<in> set (getVersions r). \<forall>t. semver_match w = Some t \<longrightarrow> sv_le t s"
    by blast
  from semver_match_pattern [OF p] obtain a b c where w: "semver_pattern (sv_version s) a b c"
    by blast
  define t where "t = \<lparr>sv_version = sv_version s, major = round_double a,
      minor = round_double b, patch = round_double c\<rparr>"
  from semver_pattern_match [OF w] p have "s = t" by (simp add: t_def)
  moreover have "major t = round_double a" "minor t = round_double b" "patch t = round_double c"
    by (simp_all add: t_def)
  ultimately
  have s: "major s = round_double a" "minor s = round_double b" "patch s = round_double c"
    by simp_all
  have "js_triple_le (a', b', c') (a, b, c)
        \<and> (js_exact a \<and> js_exact b \<and> js_exact c \<and> js_exact a' \<and> js_exact b' \<and> js_exact c' \<longrightarrow>
            triple_le (a', b', c') (a, b, c))"
    if u: "u \<in> set (getVersions r)" and q: "semver_pattern u a' b' c'" for u a' b' c'
  proof -
    from g u semver_pattern_match [OF q]
    have "sv_le \<lparr>sv_version = u, major = round_double a', minor = round_double b',
                 patch = round_double c'\<rparr> s"
      by blast
    then have j: "js_triple_le (a', b', c') (a, b, c)"
      by (simp add: sv_le_def js_triple_le_def s)
    then show ?thesis using js_triple_le_exact [of a' b' c' a b c] by blast
  qed
  with l i w show ?thesis by blast
qed

text \<open>
  C4, as amended. For every registry state, getLatestVersion returns absent exactly
  when the registry is empty. When some registered identifier matches the pattern
  (optional v, major.minor, optional .patch, the patch number 0 when absent), the
  result is a registered, matching identifier whose (major, minor, patch) triple is
  greatest among all matching registered identifiers when the numbers are compared as
  JavaScript numbers, each number being the double nearest to its decimal value; where
  the numbers of both triples are exactly representable, as every number up to 2^53
  is, it is greatest under numeric comparison of the numbers themselves. When no
  registered identifier matches (and the registry is not empty), the result is the
  default version if one is set, and otherwise the first registered version. Over the
  identifiers v1.0, v2.0, v2.1 (in any order) the result is v2.1, over v1.0, v10.0,
  v2.0 it is v10.0.
\<close>

theorem getLatestVersion_spec:
  "(getLatestVersion r = None \<longleftrightarrow> configs r = [])
   \<and> ((\<exists>v \<in> set (getVersions r). \<exists>a b c. semver_pattern v a b c) \<longrightarrow>
        (\<exists>w a b c. getLatestVersion r = Some w \<and> w \<in> set (getVersions r) \<and> semver_pattern w a b c
           \<and> (\<forall>u \<in> set (getVersions r). \<forall>a' b' c'. semver_pattern u a' b' c' \<longrightarrow>
                 js_triple_le (a', b', c') (a, b, c)
                 \<and> (js_exact a \<and> js_exact b \<and> js_exact c
                      \<and> js_exact a' \<and> js_exact b' \<and> js_exact c' \<longrightarrow>
                    triple_le (a', b', c') (a, b, c)))))
   \<and> (\<forall>n. n \<le> 2 ^ 53 \<longrightarrow> js_exact n)
   \<and> (configs r \<noteq> [] \<and> (\<forall>v \<in> set (getVersions r). \<forall>a b c. \<not> semver_pattern v a b c) \<longrightarrow>
        getLatestVersion r =
          (if truthy (defaultVersion r) then defaultVersion r else Some (hd (getVersions r)))
        \<and> hd (getVersions r) \<in> set (getVersions r))
   \<and> (set (getVersions r) = {''v1.0'', ''v2.0'', ''v2.1''} \<longrightarrow> getLatestVersion r = Some ''v2.1'')
   \<and> (set (getVersions r) = {''v1.0'', ''v10.0'', ''v2.0''} \<longrightarrow> getLatestVersion r = Some ''v10.0'')"
proof (intro conjI impI allI)
  show "getLatestVersion r = None \<longleftrightarrow> configs r = []"
    by (rule getLatestVersion_None_iff)
next
  assume "\<exists>v \<in> set (getVersions r). \<exists>a b c. semver_pattern v a b c"
  then obtain v a0 b0 c0 where "v \<in> set (getVersions r)" "semver_pattern v a0 b0 c0" by blast
  then show "\<exists>w a b c. getLatestVersion r = Some w \<and> w \<in> set (getVersions r) \<and> semver_pattern w a b c
           \<and> (\<forall>u \<in> set (getVersions r). \<forall>a' b' c'. semver_pattern u a' b' c' \<longrightarrow>
                 js_triple_le (a', b', c') (a, b, c)
                 \<and> (js_exact a \<and> js_exact b \<and> js_exact c
                      \<and> js_exact a' \<and> js_exact b' \<and> js_exact c' \<longrightarrow>
                    triple_le (a', b', c') (a, b, c)))"
    by (rule getLatestVersion_pattern)
next
  fix n :: nat assume "n \<le> 2 ^ 53"
  then show "js_exact n" by (rule js_exact_small)
next
  assume a: "configs r \<noteq> [] \<and> (\<forall>v \<in> set (getVersions r). \<forall>a b c. \<not> semver_pattern v a b c)"
  then have "\<forall>v \<in> set (getVersions r). semver_match v = None"
    using semver_pattern_iff_match by blast
  with a show "getLatestVersion r =
          (if truthy (defaultVersion r) then defaultVersion r else Some (hd (getVersions r)))"
    by (simp add: getLatestVersion_fallback)
next
  assume a: "configs r \<noteq> [] \<and> (\<forall>v \<in> set (getVersions r). \<forall>a b c. \<not> semver_pattern v a b c)"
  then have "getVersions r \<noteq> []" by (simp add: getVersions_def)
  then show "hd (getVersions r) \<in> set (getVersions r)"
    by (rule hd_in_set)
next
  assume "set (getVersions r) = {''v1.0'', ''v2.0'', ''v2.1''}"
  then show "getLatestVersion r = Some ''v2.1''" by (rule latest_example1)
next
  assume "set (getVersions r) = {''v1.0'', ''v10.0'', ''v2.0''}"
  then show "getLatestVersion r = Some ''v10.0''" by (rule latest_example2)
qed

lemma reg_semver_reachable: "reg_reachable reg_semver"
proof -
  have e: "reg_semver = snd (register (cfg ''v2.0'') (snd (register (cfg ''v10.0'')
      (snd (register (cfg ''v1.0'') new_AgentRegistry)))))"
    by (simp add: reg_semver_def register_cfg new_AgentRegistry_def truthy_def)
  show ?thesis unfolding e by (intro reach_register reach_new)
qed

lemma reg_named_reachable: "reg_reachable reg_named"
proof -
  have e: "reg_named = snd (setDefaultVersion ''canary'' (snd (register (cfg ''canary'')
      (snd (register (cfg ''stable'') new_AgentRegistry)))))"
    by (simp add: reg_named_def register_cfg new_AgentRegistry_def truthy_def setDefaultVersion_def
        Map_has_def)
  show ?thesis unfolding e by (intro reach_setDefaultVersion reach_register reach_new)
qed

lemma reg_big_reachable: "reg_reachable reg_big"
proof -
  have e: "reg_big = snd (register (cfg ''v9007199254740993.0'')
      (snd (register (cfg ''v9007199254740992.0'') new_AgentRegistry)))"
    by (simp add: reg_big_def register_cfg new_AgentRegistry_def truthy_def)
  show ?thesis unfolding e by (intro reach_register reach_new)
qed

theorem getLatestVersion_spec_witness:
  "reg_reachable reg_semver
   \<and> ''v2.0'' \<in> set (getVersions reg_semver) \<and> semver_pattern ''v2.0'' 2 0 0
   \<and> set (getVersions reg_semver) = {''v1.0'', ''v10.0'', ''v2.0''}
   \<and> getLatestVersion reg_semver = Some ''v10.0''
   \<and> semver_pattern ''v10.0'' 10 0 0
   \<and> (10 :: nat) \<le> 2 ^ 53 \<and> js_exact 10 \<and> js_exact 2 \<and> js_exact 0
   \<and> triple_le (2, 0, 0) (10, 0, 0)
   \<and> reg_reachable reg_named
   \<and> configs reg_named \<noteq> [] \<and> semver_match ''stable'' = None \<and> semver_match ''canary'' = None
   \<and> getLatestVersion reg_named = Some ''canary''"
proof -
  have k: "getVersions reg_semver = [''v1.0'', ''v10.0'', ''v2.0'']"
    by (simp add: reg_semver_def getVersions_def)
  have s: "set (getVersions reg_semver) = {''v1.0'', ''v10.0'', ''v2.0''}"
    unfolding k by simp
  have m: "''v2.0'' \<in> set (getVersions reg_semver)" unfolding k by simp
  from getLatestVersion_spec [of reg_semver] s
  have l: "getLatestVersion reg_semver = Some ''v10.0''" by blast
  from getLatestVersion_spec [of reg_semver]
  have e: "js_exact 10" "js_exact 2" "js_exact 0" by simp_all
  have t: "triple_le (2, 0, 0) (10, 0, 0)" by (simp add: triple_le_def)
  have kn: "getVersions reg_named = [''stable'', ''canary'']"
    by (simp add: reg_named_def getVersions_def)
  have cn: "configs reg_named \<noteq> []" by (simp add: reg_named_def)
  have "\<not> semver_pattern ''stable'' a b c" "\<not> semver_pattern ''canary'' a b c" for a b c
    using semver_pattern_match [of "''stable''" a b c] semver_pattern_match [of "''canary''" a b c]
    by (auto simp: semver_match_stable semver_match_canary)
  then have nn: "\<forall>v \<in> set (getVersions reg_named). \<forall>a b c. \<not> semver_pattern v a b c"
    unfolding kn by simp
  from getLatestVersion_spec [of reg_named] cn nn
  have "getLatestVersion reg_named =
      (if truthy (defaultVersion reg_named) then defaultVersion reg_named
       else Some (hd (getVersions reg_named)))" by blast
  then have ln: "getLatestVersion reg_named = Some ''canary''"
    by (simp add: reg_named_def truthy_def)
  from reg_semver_reachable m pattern_v2_0 s l pattern_v10_0 e t reg_named_reachable cn
    semver_match_stable semver_match_canary ln
  show ?thesis by simp
qed

text \<open>
  C4 as stated fails beyond 2^53. The identifiers v9007199254740992.0 and
  v9007199254740993.0, registered in this order, both match the pattern; the major
  number of the second is greater by one, but both have the same nearest JavaScript
  number, the comparator returns 0, and the stable sort leaves the first in front.
\<close>

theorem getLatestVersion_double_counterexample:
  "reg_reachable reg_big
   \<and> getVersions reg_big = [''v9007199254740992.0'', ''v9007199254740993.0'']
   \<and> semver_pattern ''v9007199254740992.0'' 9007199254740992 0 0
   \<and> semver_pattern ''v9007199254740993.0'' 9007199254740993 0 0
   \<and> \<not> triple_le (9007199254740993, 0, 0) (9007199254740992, 0, 0)
   \<and> getLatestVersion reg_big = Some ''v9007199254740992.0''"
proof -
  have k: "getVersions reg_big = [''v9007199254740992.0'', ''v9007199254740993.0'']"
    by (simp add: reg_big_def getVersions_def)
  have t: "\<not> triple_le (9007199254740993, 0, 0) (9007199254740992, 0, 0)"
    by (simp add: triple_le_def)
  have l: "getLatestVersion reg_big = Some ''v9007199254740992.0''"
    by (simp add: getLatestVersion_def semanticVersions_def k List.map_filter_simps
        semver_match_big semver_match_big_1 sort_cmp_def compare_desc_def minus_sign_def)
  from reg_big_reachable k pattern_big pattern_big_1 t l show ?thesis by simp
qed

section \<open>resolveVersion\<close>

lemma resolve_explicit:
  assumes "explicit_version ctx = Some v"
  shows "resolveVersion s ctx strategy =
     (if has (registry s) v then Inr v
      else Inl (Error (''Requested version '' @ v @ '' not found in registry'')))"
proof -
  from assms have "ctx_version ctx = Some v" "truthy (ctx_version ctx)"
    by (simp_all add: explicit_version_def present_Some_iff truthy_def)
  then show ?thesis by (simp add: resolveVersion_def)
qed

lemma tenant_step:
  "(if truthy (ctx_tenantId ctx)
    then (case Map_get (tenantConfigs s) (the (ctx_tenantId ctx)) of
            None \<Rightarrow> None
          | Some tenantConfig \<Rightarrow> present (tc_defaultVersion tenantConfig))
    else None) = tenant_default_version s ctx"
  by (cases "ctx_tenantId ctx")
     (simp_all add: tenant_default_version_def getTenantConfig_def present_def truthy_def)

lemma global_step:
  "(case globalConfig s of None \<Rightarrow> None | Some g \<Rightarrow> present (Some (gc_defaultVersion g)))
     = global_default_version s"
  by (simp add: global_default_version_def getGlobalConfig_def)

lemma pin_step:
  "map_option pin_version (Map_get (userPins s) (ctx_userId ctx)) = user_pin_version s ctx"
  by (simp add: user_pin_version_def getUserPin_def)

lemma latest_step:
  "(case present (getLatestVersion (registry s)) of
      None \<Rightarrow> Inl (Error ''No agent versions available in registry'')
    | Some latest \<Rightarrow> Inr latest) = chain_latest s"
  by (simp add: chain_latest_def)

lemma resolveVersion_steps:
  assumes "\<not> truthy (ctx_version ctx)"
  shows "resolveVersion s ctx strategy =
     (let routingStrategy = (if truthy strategy then the strategy else ''pin'')
      in case (if routingStrategy = ''pin'' then user_pin_version s ctx else None) of
           Some v \<Rightarrow> Inr v
         | None \<Rightarrow>
            (case (if routingStrategy = ''pin'' \<or> routingStrategy = ''tenant-default''
                   then tenant_default_version s ctx else None) of
               Some v \<Rightarrow> Inr v
             | None \<Rightarrow>
                (case (if routingStrategy = ''pin'' \<or> routingStrategy = ''tenant-default''
                          \<or> routingStrategy = ''global-default''
                       then global_default_version s else None) of
                   Some v \<Rightarrow> Inr v
                 | None \<Rightarrow>
                    if routingStrategy = ''latest'' \<or> routingStrategy = ''pin''
                       \<or> routingStrategy = ''tenant-default'' \<or> routingStrategy = ''global-default''
                    then chain_latest s
                    else Inl (Error (''Unknown routing strategy: '' @ routingStrategy)))))"
  unfolding resolveVersion_def tenant_step global_step pin_step latest_step
  using assms by simp

lemma resolve_pin:
  assumes "explicit_version ctx = None" "strategy = None \<or> strategy = Some ''pin''"
  shows "resolveVersion s ctx strategy = chain_pin s ctx"
proof -
  from assms(1) have e: "\<not> truthy (ctx_version ctx)"
    by (simp add: explicit_version_def present_None_iff)
  from assms(2) have r: "(if truthy strategy then the strategy else ''pin'') = ''pin''"
    by (auto simp: truthy_def)
  show ?thesis
    unfolding resolveVersion_steps [OF e] Let_def r
    by (simp add: chain_pin_def chain_tenant_def chain_global_def split: option.split)
qed

lemma resolve_tenant:
  assumes "explicit_version ctx = None"
  shows "resolveVersion s ctx (Some ''tenant-default'') = chain_tenant s ctx"
proof -
  from assms(1) have e: "\<not> truthy (ctx_version ctx)"
    by (simp add: explicit_version_def present_None_iff)
  have r: "(if truthy (Some ''tenant-default'') then the (Some ''tenant-default'') else ''pin'')
             = ''tenant-default''"
    by (simp add: truthy_def)
  show ?thesis
    unfolding resolveVersion_steps [OF e] Let_def r
    by (simp add: chain_tenant_def chain_global_def split: option.split)
qed

lemma resolve_global:
  assumes "explicit_version ctx = None"
  shows "resolveVersion s ctx (Some ''global-default'') = chain_global s"
proof -
  from assms(1) have e: "\<not> truthy (ctx_version ctx)"
    by (simp add: explicit_version_def present_None_iff)
  have r: "(if truthy (Some ''global-default'') then the (Some ''global-default'') else ''pin'')
             = ''global-default''"
    by (simp add: truthy_def)
  show ?thesis
    unfolding resolveVersion_steps [OF e] Let_def r
    by (simp add: chain_global_def)
qed

lemma resolve_latest:
  assumes "explicit_version ctx = None"
  shows "resolveVersion s ctx (Some ''latest'') = chain_latest s"
proof -
  from assms(1) have e: "\<not> truthy (ctx_version ctx)"
    by (simp add: explicit_version_def present_None_iff)
  have r: "(if truthy (Some ''latest'') then the (Some ''latest'') else ''pin'') = ''latest''"
    by (simp add: truthy_def)
  show ?thesis
    unfolding resolveVersion_steps [OF e] Let_def r
    by simp
qed

lemma chain_latest_empty:
  "configs (registry s) = [] \<Longrightarrow> chain_latest s = Inl (Error ''No agent versions available in registry'')"
  by (simp add: chain_latest_def getLatestVersion_def getVersions_def present_def truthy_def)

text \<open>
  C2. resolveVersion is the graduated fallthrough chain. With an explicit version in
  the context it returns that version when it is registered and throws (requested
  version not found in registry) when it is not, whatever the strategy. Without one,
  strategy pin (or none) returns the user's pinned version if there is one and
  otherwise continues with the tenant's default version, then the global default
  version, then the registry's latest version; tenant-default starts at the tenant,
  global-default at the global default, latest at the latest version, which throws (no
  agent versions available) on an empty registry.
\<close>

theorem resolveVersion_chain:
  "(\<forall>v. explicit_version ctx = Some v \<longrightarrow>
        resolveVersion s ctx strategy =
          (if has (registry s) v then Inr v
           else Inl (Error (''Requested version '' @ v @ '' not found in registry''))))
   \<and> (explicit_version ctx = None \<longrightarrow>
        (strategy = None \<or> strategy = Some ''pin'' \<longrightarrow>
           resolveVersion s ctx strategy =
             (case user_pin_version s ctx of Some v \<Rightarrow> Inr v | None \<Rightarrow> chain_tenant s ctx))
      \<and> (strategy = Some ''tenant-default'' \<longrightarrow>
           resolveVersion s ctx strategy = chain_tenant s ctx)
      \<and> (strategy = Some ''global-default'' \<longrightarrow>
           resolveVersion s ctx strategy = chain_global s)
      \<and> (strategy = Some ''latest'' \<longrightarrow>
           resolveVersion s ctx strategy = chain_latest s))
   \<and> chain_tenant s ctx =
        (case tenant_default_version s ctx of Some v \<Rightarrow> Inr v | None \<Rightarrow> chain_global s)
   \<and> chain_global s =
        (case global_default_version s of Some v \<Rightarrow> Inr v | None \<Rightarrow> chain_latest s)
   \<and> chain_latest s =
        (case present (getLatestVersion (registry s)) of
           None \<Rightarrow> Inl (Error ''No agent versions available in registry'')
         | Some v \<Rightarrow> Inr v)
   \<and> (configs (registry s) = [] \<longrightarrow>
        chain_latest s = Inl (Error ''No agent versions available in registry''))"
  using resolve_explicit [of ctx _ s strategy] resolve_pin [of ctx strategy s]
    resolve_tenant [of ctx s] resolve_global [of ctx s] resolve_latest [of ctx s]
    chain_latest_empty [of s]
  by (simp add: chain_pin_def chain_tenant_def chain_global_def chain_latest_def)

lemma latest_reg_demo: "getLatestVersion reg_demo = Some ''v4.0''"
  by (simp add: getLatestVersion_def reg_demo_def getVersions_def semanticVersions_def
      sort_cmp_def List.map_filter_simps semver_match_def is_digit_def parseInt10_def
      round_double_def compare_desc_def minus_sign_def)

lemma demo_values:
  "user_pin_version router_demo ctx_demo = Some ''v2.1''"
  "tenant_default_version router_demo ctx_demo = Some ''v2.0''"
  "global_default_version router_demo = Some ''v1.0''"
  "chain_latest router_demo = Inr ''v4.0''"
  "has (registry router_demo) ''v3.0''"
  "\<not> has (registry router_demo) ''v9.9''"
     apply (simp_all add: user_pin_version_def tenant_default_version_def global_default_version_def
      chain_latest_def getUserPin_def getTenantConfig_def getGlobalConfig_def router_demo_def
      ctx_demo_def present_def truthy_def latest_reg_demo)
   apply (simp_all add: reg_demo_def has_def Map_has_def)
  done

theorem resolveVersion_chain_witness:
  "explicit_version (ctx_demo\<lparr>ctx_version := Some ''v3.0''\<rparr>) = Some ''v3.0''
   \<and> resolveVersion router_demo (ctx_demo\<lparr>ctx_version := Some ''v3.0''\<rparr>) (Some ''latest'') = Inr ''v3.0''
   \<and> explicit_version (ctx_demo\<lparr>ctx_version := Some ''v9.9''\<rparr>) = Some ''v9.9''
   \<and> resolveVersion router_demo (ctx_demo\<lparr>ctx_version := Some ''v9.9''\<rparr>) None
        = Inl (Error ''Requested version v9.9 not found in registry'')
   \<and> explicit_version ctx_demo = None
   \<and> resolveVersion router_demo ctx_demo None = Inr ''v2.1''
   \<and> resolveVersion router_demo ctx_demo (Some ''pin'') = Inr ''v2.1''
   \<and> resolveVersion router_demo ctx_demo (Some ''tenant-default'') = Inr ''v2.0''
   \<and> resolveVersion router_demo ctx_demo (Some ''global-default'') = Inr ''v1.0''
   \<and> resolveVersion router_demo ctx_demo (Some ''latest'') = Inr ''v4.0''
   \<and> configs (registry (new_VersionRouter new_AgentRegistry)) = []
   \<and> resolveVersion (new_VersionRouter new_AgentRegistry) ctx_demo (Some ''latest'')
        = Inl (Error ''No agent versions available in registry'')"
proof -
  have e3: "explicit_version (ctx_demo\<lparr>ctx_version := Some ''v3.0''\<rparr>) = Some ''v3.0''"
    and e9: "explicit_version (ctx_demo\<lparr>ctx_version := Some ''v9.9''\<rparr>) = Some ''v9.9''"
    and e0: "explicit_version ctx_demo = None"
    by (simp_all add: explicit_version_def present_def truthy_def ctx_demo_def)
  have emp: "configs (registry (new_VersionRouter new_AgentRegistry)) = []"
    by (simp add: new_VersionRouter_def new_AgentRegistry_def)
  from resolveVersion_chain [of "ctx_demo\<lparr>ctx_version := Some ''v3.0''\<rparr>" router_demo "Some ''latest''"] e3
  have r3: "resolveVersion router_demo (ctx_demo\<lparr>ctx_version := Some ''v3.0''\<rparr>) (Some ''latest'') = Inr ''v3.0''"
    by (simp add: demo_values)
  from resolveVersion_chain [of "ctx_demo\<lparr>ctx_version := Some ''v9.9''\<rparr>" router_demo None] e9
  have r9: "resolveVersion router_demo (ctx_demo\<lparr>ctx_version := Some ''v9.9''\<rparr>) None
        = Inl (Error ''Requested version v9.9 not found in registry'')"
    by (simp add: demo_values)
  from resolveVersion_chain [of ctx_demo router_demo None] e0
  have rn: "resolveVersion router_demo ctx_demo None = Inr ''v2.1''"
    by (simp add: demo_values)
  from resolveVersion_chain [of ctx_demo router_demo "Some ''pin''"] e0
  have rp: "resolveVersion router_demo ctx_demo (Some ''pin'') = Inr ''v2.1''"
    by (simp add: demo_values)
  from resolveVersion_chain [of ctx_demo router_demo "Some ''tenant-default''"] e0
  have rt: "resolveVersion router_demo ctx_demo (Some ''tenant-default'') = Inr ''v2.0''"
    by (simp add: demo_values)
  from resolveVersion_chain [of ctx_demo router_demo "Some ''global-default''"] e0
  have rg: "resolveVersion router_demo ctx_demo (Some ''global-default'') = Inr ''v1.0''"
    by (simp add: demo_values)
  from resolveVersion_chain [of ctx_demo router_demo "Some ''latest''"] e0
  have rl: "resolveVersion router_demo ctx_demo (Some ''latest'') = Inr ''v4.0''"
    by (simp add: demo_values)
  from resolveVersion_chain [of ctx_demo "new_VersionRouter new_AgentRegistry" "Some ''latest''"] e0 emp
  have "resolveVersion (new_VersionRouter new_AgentRegistry) ctx_demo (Some ''latest'')
          = chain_latest (new_VersionRouter new_AgentRegistry)"
    and "chain_latest (new_VersionRouter new_AgentRegistry)
          = Inl (Error ''No agent versions available in registry'')"
    by blast+
  then have re: "resolveVersion (new_VersionRouter new_AgentRegistry) ctx_demo (Some ''latest'')
        = Inl (Error ''No agent versions available in registry'')"
    by simp
  from e3 r3 e9 r9 e0 rn rp rt rg rl emp re show ?thesis by blast
qed

section \<open>availableVersions\<close>

lemma global_step_default:
  "(case globalConfig s of None \<Rightarrow> None | Some g \<Rightarrow> present (Some (gc_defaultVersion g)))
     = Option.bind (map_option gc_defaultVersion (globalConfig s)) (\<lambda>d. present (Some d))"
  by (cases "globalConfig s") simp_all

lemma resolveVersion_cong:
  assumes "registry s = registry s'" "userPins s = userPins s'"
    "tenantConfigs s = tenantConfigs s'"
    "map_option gc_defaultVersion (globalConfig s) = map_option gc_defaultVersion (globalConfig s')"
  shows "resolveVersion s ctx strategy = resolveVersion s' ctx strategy"
  unfolding resolveVersion_def global_step_default assms ..

text \<open>
  C10. The availableVersions field is neither validated nor read by resolution:
  setGlobalConfig returns for any availableVersions list as soon as the default version
  is registered, its outcome does not depend on the list, and resolveVersion gives the
  same result, for every context and strategy, under two global configs that differ
  only in availableVersions, whether stored directly or by setGlobalConfig.
\<close>

theorem availableVersions_ignored:
  "(has (registry s) (gc_defaultVersion g) \<longrightarrow>
      fst (setGlobalConfig (g\<lparr>availableVersions := av\<rparr>) s) = Inr ())
   \<and> fst (setGlobalConfig (g\<lparr>availableVersions := av\<rparr>) s) = fst (setGlobalConfig g s)
   \<and> resolveVersion (s\<lparr>globalConfig := Some (g\<lparr>availableVersions := av\<rparr>)\<rparr>) ctx strategy
       = resolveVersion (s\<lparr>globalConfig := Some g\<rparr>) ctx strategy
   \<and> resolveVersion (snd (setGlobalConfig (g\<lparr>availableVersions := av\<rparr>) s)) ctx strategy
       = resolveVersion (snd (setGlobalConfig g s)) ctx strategy"
proof (intro conjI impI)
  assume "has (registry s) (gc_defaultVersion g)"
  then show "fst (setGlobalConfig (g\<lparr>availableVersions := av\<rparr>) s) = Inr ()"
    by (simp add: setGlobalConfig_fst)
next
  show "fst (setGlobalConfig (g\<lparr>availableVersions := av\<rparr>) s) = fst (setGlobalConfig g s)"
    by (simp add: setGlobalConfig_fst)
next
  show "resolveVersion (s\<lparr>globalConfig := Some (g\<lparr>availableVersions := av\<rparr>)\<rparr>) ctx strategy
       = resolveVersion (s\<lparr>globalConfig := Some g\<rparr>) ctx strategy"
    by (rule resolveVersion_cong) simp_all
next
  show "resolveVersion (snd (setGlobalConfig (g\<lparr>availableVersions := av\<rparr>) s)) ctx strategy
       = resolveVersion (snd (setGlobalConfig g s)) ctx strategy"
    by (rule resolveVersion_cong) (simp_all add: setGlobalConfig_snd)
qed

theorem availableVersions_ignored_witness:
  "has (registry router_demo) (gc_defaultVersion gc_demo)
   \<and> \<not> has (registry router_demo) ''v9.9''
   \<and> fst (setGlobalConfig (gc_demo\<lparr>availableVersions := [''v9.9'', ''nope'']\<rparr>) router_demo) = Inr ()"
proof -
  have h: "has (registry router_demo) (gc_defaultVersion gc_demo)"
    by (simp add: gc_demo_def router_demo_def reg_demo_def has_def Map_has_def)
  from availableVersions_ignored [of router_demo gc_demo "[''v9.9'', ''nope'']"] h
  have "fst (setGlobalConfig (gc_demo\<lparr>availableVersions := [''v9.9'', ''nope'']\<rparr>) router_demo) = Inr ()"
    by blast
  with h demo_values(6) show ?thesis by simp
qed

section \<open>migrateUsers and rollback\<close>

lemma migrate_loop_has:
  assumes "has (registry s) toVersion"
  shows "\<exists>s'. migrate_loop now fromVersion toVersion us k s = (Inr (k + length us), s')
     \<and> registry s' = registry s \<and> tenantConfigs s' = tenantConfigs s \<and> globalConfig s' = globalConfig s
     \<and> (\<forall>u. u \<notin> set us \<longrightarrow> Map_get (userPins s') u = Map_get (userPins s) u)
     \<and> (\<forall>u \<in> set us. \<exists>i < length us.
           Map_get (userPins s') u = Some (migrated_pin u fromVersion toVersion (now (k + i))))
     \<and> ((\<forall>u \<in> set us. Map_has (userPins s) u) \<longrightarrow> map fst (userPins s') = map fst (userPins s))"
  using assms
proof (induction us arbitrary: k s)
  case Nil
  then show ?case by simp
next
  case (Cons u us)
  let ?p = "migrated_pin u fromVersion toVersion (now k)"
  let ?s1 = "s\<lparr>userPins := Map_set u ?p (userPins s)\<rparr>"
  have step: "pinUser (now k) u toVersion (Some (''Migrated from '' @ fromVersion)) s = (Inr (), ?s1)"
    using Cons.prems by (simp add: pinUser_def migrated_pin_def)
  have h1: "has (registry ?s1) toVersion" using Cons.prems by simp
  from Cons.IH [OF h1, of "k + 1"] obtain s' where
    r: "migrate_loop now fromVersion toVersion us (k + 1) ?s1 = (Inr (k + 1 + length us), s')"
    and f: "registry s' = registry ?s1" "tenantConfigs s' = tenantConfigs ?s1"
      "globalConfig s' = globalConfig ?s1"
    and o: "\<forall>w. w \<notin> set us \<longrightarrow> Map_get (userPins s') w = Map_get (userPins ?s1) w"
    and m: "\<forall>w \<in> set us. \<exists>i < length us.
           Map_get (userPins s') w = Some (migrated_pin w fromVersion toVersion (now (k + 1 + i)))"
    and ks: "(\<forall>w \<in> set us. Map_has (userPins ?s1) w) \<longrightarrow> map fst (userPins s') = map fst (userPins ?s1)"
    by blast
  have res: "migrate_loop now fromVersion toVersion (u # us) k s = (Inr (k + length (u # us)), s')"
    using step r by simp
  have frame: "registry s' = registry s \<and> tenantConfigs s' = tenantConfigs s \<and> globalConfig s' = globalConfig s"
    using f by simp
  have others: "\<forall>w. w \<notin> set (u # us) \<longrightarrow> Map_get (userPins s') w = Map_get (userPins s) w"
    using o by (simp add: Map_get_set)
  have moved: "\<forall>w \<in> set (u # us). \<exists>i < length (u # us).
           Map_get (userPins s') w = Some (migrated_pin w fromVersion toVersion (now (k + i)))"
  proof
    fix w assume w: "w \<in> set (u # us)"
    show "\<exists>i < length (u # us).
           Map_get (userPins s') w = Some (migrated_pin w fromVersion toVersion (now (k + i)))"
    proof (cases "w \<in> set us")
      case True
      with m obtain i where "i < length us"
        "Map_get (userPins s') w = Some (migrated_pin w fromVersion toVersion (now (k + 1 + i)))"
        by blast
      then have "Suc i < length (u # us)"
        "Map_get (userPins s') w = Some (migrated_pin w fromVersion toVersion (now (k + Suc i)))"
        by simp_all
      then show ?thesis by blast
    next
      case False
      with w have wu: "w = u" by simp
      with False o have "Map_get (userPins s') w = Some ?p"
        by (simp add: Map_get_set)
      with wu have "Map_get (userPins s') w = Some (migrated_pin w fromVersion toVersion (now (k + 0)))"
        by simp
      then show ?thesis by (intro exI [of _ 0]) simp
    qed
  qed
  have keys: "(\<forall>w \<in> set (u # us). Map_has (userPins s) w) \<longrightarrow> map fst (userPins s') = map fst (userPins s)"
  proof
    assume a: "\<forall>w \<in> set (u # us). Map_has (userPins s) w"
    then have "\<forall>w \<in> set us. Map_has (userPins ?s1) w" by (simp add: Map_has_set)
    with ks have "map fst (userPins s') = map fst (userPins ?s1)" by blast
    also have "\<dots> = map fst (userPins s)" using a by (simp add: Map_set_keys)
    finally show "map fst (userPins s') = map fst (userPins s)" .
  qed
  from res frame others moved keys show ?case by blast
qed

lemma getUsersPinnedToVersion_mem:
  "u \<in> set (getUsersPinnedToVersion s version)
     \<longleftrightarrow> (\<exists>p. (u, p) \<in> set (userPins s) \<and> pin_version p = version)"
proof -
  have "set (getUsersPinnedToVersion s version)
      = fst ` {x \<in> set (userPins s). pin_version (snd x) = version}"
    by (simp add: getUsersPinnedToVersion_def case_prod_beta)
  also have "u \<in> \<dots> \<longleftrightarrow> (\<exists>p. (u, p) \<in> set (userPins s) \<and> pin_version p = version)"
    by force
  finally show ?thesis .
qed

lemma pinned_to_iff:
  assumes "distinct (map fst (userPins s))"
  shows "pinned_to s version u \<longleftrightarrow> (\<exists>p. (u, p) \<in> set (userPins s) \<and> pin_version p = version)"
proof
  assume "pinned_to s version u"
  then obtain p where g: "Map_get (userPins s) u = Some p" and v: "pin_version p = version"
    by (auto simp: pinned_to_def getUserPin_def split: option.splits)
  from Map_get_Some_mem [OF g] v
  show "\<exists>p. (u, p) \<in> set (userPins s) \<and> pin_version p = version"
    by (intro exI [of _ p]) simp
next
  assume "\<exists>p. (u, p) \<in> set (userPins s) \<and> pin_version p = version"
  then obtain p where p: "(u, p) \<in> set (userPins s)" "pin_version p = version" by blast
  from Map_get_distinct [OF assms p(1)] p(2) show "pinned_to s version u"
    by (simp add: pinned_to_def getUserPin_def)
qed

lemma getUsersPinnedToVersion_set:
  assumes "distinct (map fst (userPins s))"
  shows "set (getUsersPinnedToVersion s version) = {u. pinned_to s version u}"
proof (rule set_eqI)
  fix u
  show "u \<in> set (getUsersPinnedToVersion s version) \<longleftrightarrow> u \<in> {u. pinned_to s version u}"
    by (simp add: getUsersPinnedToVersion_mem pinned_to_iff [OF assms])
qed

lemma getUsersPinnedToVersion_distinct:
  "distinct (map fst (userPins s)) \<Longrightarrow> distinct (getUsersPinnedToVersion s version)"
  unfolding getUsersPinnedToVersion_def by (rule distinct_map_filter)

lemma card_pinned_to:
  assumes "distinct (map fst (userPins s))"
  shows "card {u. pinned_to s version u} = length (getUsersPinnedToVersion s version)"
  using getUsersPinnedToVersion_set [OF assms, of version]
    distinct_card [OF getUsersPinnedToVersion_distinct [OF assms, of version]]
  by simp

lemma pinned_to_has: "pinned_to s version u \<Longrightarrow> Map_has (userPins s) u"
  by (auto simp: pinned_to_def getUserPin_def Map_has_def split: option.splits)

lemma migrateUsers_outcome:
  assumes "has (registry s) toVersion" "distinct (map fst (userPins s))"
  shows "\<exists>s'. migrateUsers now fromVersion toVersion s = (Inr (card {u. pinned_to s fromVersion u}), s')
     \<and> registry s' = registry s \<and> tenantConfigs s' = tenantConfigs s \<and> globalConfig s' = globalConfig s
     \<and> (\<forall>u. \<not> pinned_to s fromVersion u \<longrightarrow> getUserPin s' u = getUserPin s u)
     \<and> (\<forall>u. pinned_to s fromVersion u \<longrightarrow> (\<exists>i < card {u. pinned_to s fromVersion u}.
           getUserPin s' u = Some (migrated_pin u fromVersion toVersion (now i))))
     \<and> map fst (userPins s') = map fst (userPins s)"
proof -
  let ?us = "getUsersPinnedToVersion s fromVersion"
  have us: "set ?us = {u. pinned_to s fromVersion u}"
    by (rule getUsersPinnedToVersion_set [OF assms(2)])
  have n: "card {u. pinned_to s fromVersion u} = length ?us"
    by (rule card_pinned_to [OF assms(2)])
  from migrate_loop_has [OF assms(1), of now fromVersion ?us 0] obtain s' where
    r: "migrate_loop now fromVersion toVersion ?us 0 s = (Inr (0 + length ?us), s')"
    and f: "registry s' = registry s" "tenantConfigs s' = tenantConfigs s"
      "globalConfig s' = globalConfig s"
    and o: "\<forall>u. u \<notin> set ?us \<longrightarrow> Map_get (userPins s') u = Map_get (userPins s) u"
    and m: "\<forall>u \<in> set ?us. \<exists>i < length ?us.
           Map_get (userPins s') u = Some (migrated_pin u fromVersion toVersion (now (0 + i)))"
    and ks: "(\<forall>u \<in> set ?us. Map_has (userPins s) u) \<longrightarrow> map fst (userPins s') = map fst (userPins s)"
    by blast
  have res: "migrateUsers now fromVersion toVersion s = (Inr (card {u. pinned_to s fromVersion u}), s')"
    using r assms(1) n by (simp add: migrateUsers_def)
  have others: "\<forall>u. \<not> pinned_to s fromVersion u \<longrightarrow> getUserPin s' u = getUserPin s u"
    using o us by (simp add: getUserPin_def)
  have moved: "\<forall>u. pinned_to s fromVersion u \<longrightarrow> (\<exists>i < card {u. pinned_to s fromVersion u}.
           getUserPin s' u = Some (migrated_pin u fromVersion toVersion (now i)))"
    using m us n by (simp add: getUserPin_def)
  have "\<forall>u \<in> set ?us. Map_has (userPins s) u"
    using us pinned_to_has by simp
  with ks have keys: "map fst (userPins s') = map fst (userPins s)" by simp
  from res f others moved keys show ?thesis by (intro exI [of _ s']) simp
qed

lemma migrateUsers_post:
  assumes "has (registry s) toVersion" "distinct (map fst (userPins s))"
  shows "fst (migrateUsers now fromVersion toVersion s) = Inr (card {u. pinned_to s fromVersion u})"
    and "\<forall>u. pinned_to s fromVersion u \<longrightarrow> (\<exists>i < card {u. pinned_to s fromVersion u}.
           getUserPin (snd (migrateUsers now fromVersion toVersion s)) u =
             Some (migrated_pin u fromVersion toVersion (now i)))"
    and "\<forall>u. \<not> pinned_to s fromVersion u \<longrightarrow>
           getUserPin (snd (migrateUsers now fromVersion toVersion s)) u = getUserPin s u"
    and "map fst (userPins (snd (migrateUsers now fromVersion toVersion s))) = map fst (userPins s)"
    and "registry (snd (migrateUsers now fromVersion toVersion s)) = registry s"
    and "tenantConfigs (snd (migrateUsers now fromVersion toVersion s)) = tenantConfigs s"
    and "globalConfig (snd (migrateUsers now fromVersion toVersion s)) = globalConfig s"
proof -
  from migrateUsers_outcome [OF assms, of now fromVersion] obtain s' where
    r: "migrateUsers now fromVersion toVersion s = (Inr (card {u. pinned_to s fromVersion u}), s')"
    and p: "registry s' = registry s \<and> tenantConfigs s' = tenantConfigs s \<and> globalConfig s' = globalConfig s
     \<and> (\<forall>u. \<not> pinned_to s fromVersion u \<longrightarrow> getUserPin s' u = getUserPin s u)
     \<and> (\<forall>u. pinned_to s fromVersion u \<longrightarrow> (\<exists>i < card {u. pinned_to s fromVersion u}.
           getUserPin s' u = Some (migrated_pin u fromVersion toVersion (now i))))
     \<and> map fst (userPins s') = map fst (userPins s)"
    by blast
  from r have e: "snd (migrateUsers now fromVersion toVersion s) = s'" by simp
  from r show "fst (migrateUsers now fromVersion toVersion s) = Inr (card {u. pinned_to s fromVersion u})"
    by simp
  from p show "\<forall>u. pinned_to s fromVersion u \<longrightarrow> (\<exists>i < card {u. pinned_to s fromVersion u}.
           getUserPin (snd (migrateUsers now fromVersion toVersion s)) u =
             Some (migrated_pin u fromVersion toVersion (now i)))"
    unfolding e by simp
  from p show "\<forall>u. \<not> pinned_to s fromVersion u \<longrightarrow>
           getUserPin (snd (migrateUsers now fromVersion toVersion s)) u = getUserPin s u"
    unfolding e by simp
  from p show "map fst (userPins (snd (migrateUsers now fromVersion toVersion s))) = map fst (userPins s)"
    unfolding e by simp
  from p show "registry (snd (migrateUsers now fromVersion toVersion s)) = registry s"
    unfolding e by simp
  from p show "tenantConfigs (snd (migrateUsers now fromVersion toVersion s)) = tenantConfigs s"
    unfolding e by simp
  from p show "globalConfig (snd (migrateUsers now fromVersion toVersion s)) = globalConfig s"
    unfolding e by simp
qed

lemma router_pins_facts:
  "has (registry router_pins) ''v2.0''"
  "has (registry router_pins) ''v2.1''"
  "distinct (map fst (userPins router_pins))"
  "getUsersPinnedToVersion router_pins ''v2.1'' = [''u1'', ''u3'', ''u4'']"
  "pinned_to router_pins ''v2.1'' ''u1''"
  "\<not> pinned_to router_pins ''v2.1'' ''u2''"
  "getUserPin router_pins ''u2'' =
     Some \<lparr>pin_userId = ''u2'', pin_version = ''v2.0'', pinnedAt = 11, reason = Some ''beta''\<rparr>"
  by (simp_all add: router_pins_def reg_demo_def has_def Map_has_def getUsersPinnedToVersion_def
      pinned_to_def getUserPin_def)

text \<open>
  C5. For every router state (whose pin map holds each user once, as a JavaScript
  \<open>Map\<close> does), all versions
  fromVersion and toVersion with toVersion registered, and every clock: migrateUsers
  returns the number of users pinned to fromVersion; afterwards each of them is pinned
  to toVersion with the reason ``Migrated from'' followed by fromVersion, at a time the
  clock gave during the call; the pin of every other user is unchanged; the order of
  the pin map, the registry, the tenant configs and the global config are unchanged.
\<close>

theorem migrateUsers_spec:
  assumes "has (registry s) toVersion" "distinct (map fst (userPins s))"
  shows "fst (migrateUsers now fromVersion toVersion s) = Inr (card {u. pinned_to s fromVersion u})
     \<and> (\<forall>u. pinned_to s fromVersion u \<longrightarrow> (\<exists>i < card {u. pinned_to s fromVersion u}.
           getUserPin (snd (migrateUsers now fromVersion toVersion s)) u =
             Some \<lparr>pin_userId = u, pin_version = toVersion, pinnedAt = now i,
                   reason = Some (''Migrated from '' @ fromVersion)\<rparr>))
     \<and> (\<forall>u. \<not> pinned_to s fromVersion u \<longrightarrow>
           getUserPin (snd (migrateUsers now fromVersion toVersion s)) u = getUserPin s u)
     \<and> map fst (userPins (snd (migrateUsers now fromVersion toVersion s))) = map fst (userPins s)
     \<and> registry (snd (migrateUsers now fromVersion toVersion s)) = registry s
     \<and> tenantConfigs (snd (migrateUsers now fromVersion toVersion s)) = tenantConfigs s
     \<and> globalConfig (snd (migrateUsers now fromVersion toVersion s)) = globalConfig s"
  using migrateUsers_post [OF assms, where now = now and fromVersion = fromVersion]
  unfolding migrated_pin_def by (intro conjI)

theorem migrateUsers_spec_witness:
  "has (registry router_pins) ''v2.0''
   \<and> distinct (map fst (userPins router_pins))
   \<and> fst (migrateUsers clock_demo ''v2.1'' ''v2.0'' router_pins) = Inr 3
   \<and> pinned_to router_pins ''v2.1'' ''u1''
   \<and> map_option pin_version (getUserPin (snd (migrateUsers clock_demo ''v2.1'' ''v2.0'' router_pins)) ''u1'')
        = Some ''v2.0''
   \<and> map_option reason (getUserPin (snd (migrateUsers clock_demo ''v2.1'' ''v2.0'' router_pins)) ''u1'')
        = Some (Some ''Migrated from v2.1'')
   \<and> \<not> pinned_to router_pins ''v2.1'' ''u2''
   \<and> getUserPin (snd (migrateUsers clock_demo ''v2.1'' ''v2.0'' router_pins)) ''u2''
        = Some \<lparr>pin_userId = ''u2'', pin_version = ''v2.0'', pinnedAt = 11, reason = Some ''beta''\<rparr>"
proof -
  let ?s' = "snd (migrateUsers clock_demo ''v2.1'' ''v2.0'' router_pins)"
  note spec = migrateUsers_spec [OF router_pins_facts(1) router_pins_facts(3),
      where now = clock_demo and fromVersion = "''v2.1''"]
  have n: "card {u. pinned_to router_pins ''v2.1'' u} = 3"
    by (simp add: card_pinned_to [OF router_pins_facts(3)] router_pins_facts(4))
  from spec n have c: "fst (migrateUsers clock_demo ''v2.1'' ''v2.0'' router_pins) = Inr 3"
    by simp
  from spec router_pins_facts(5) obtain i where
    "getUserPin ?s' ''u1'' = Some \<lparr>pin_userId = ''u1'', pin_version = ''v2.0'', pinnedAt = clock_demo i,
                   reason = Some (''Migrated from '' @ ''v2.1'')\<rparr>"
    by blast
  then have p: "map_option pin_version (getUserPin ?s' ''u1'') = Some ''v2.0''"
    and r: "map_option reason (getUserPin ?s' ''u1'') = Some (Some ''Migrated from v2.1'')"
    by simp_all
  from spec router_pins_facts(6) have "getUserPin ?s' ''u2'' = getUserPin router_pins ''u2''"
    by blast
  then have o: "getUserPin ?s' ''u2''
        = Some \<lparr>pin_userId = ''u2'', pin_version = ''v2.0'', pinnedAt = 11, reason = Some ''beta''\<rparr>"
    by (simp add: router_pins_facts(7))
  from router_pins_facts(1,3,5,6) c p r o show ?thesis by simp
qed

lemma migrateUsers_none_left:
  assumes "has (registry s) toVersion" "distinct (map fst (userPins s))" "fromVersion \<noteq> toVersion"
  shows "getUsersPinnedToVersion (snd (migrateUsers now fromVersion toVersion s)) fromVersion = []"
proof -
  define s' where "s' = snd (migrateUsers now fromVersion toVersion s)"
  note post = migrateUsers_post [OF assms(1,2), where now = now and fromVersion = fromVersion, folded s'_def]
  have d: "distinct (map fst (userPins s'))" using post(4) assms(2) by simp
  have "\<not> pinned_to s' fromVersion u" for u
  proof (cases "pinned_to s fromVersion u")
    case True
    with post(2) obtain i where "getUserPin s' u = Some (migrated_pin u fromVersion toVersion (now i))"
      by blast
    with assms(3) show ?thesis by (simp add: pinned_to_def migrated_pin_def)
  next
    case False
    with post(3) have "getUserPin s' u = getUserPin s u" by simp
    with False show ?thesis by (simp add: pinned_to_def)
  qed
  then have "set (getUsersPinnedToVersion s' fromVersion) = {}"
    by (simp add: getUsersPinnedToVersion_set [OF d])
  then show ?thesis unfolding s'_def by simp
qed

text \<open>
  C6, as amended. For every router state (whose pin map holds each user once, as a
  JavaScript \<open>Map\<close> does) and all
  versions fromVersion and toVersion with toVersion registered and different from
  fromVersion: after migrateUsers has run, a second run returns 0 and leaves the state
  unchanged.
\<close>

theorem migrateUsers_idempotent:
  assumes "has (registry s) toVersion" "distinct (map fst (userPins s))" "fromVersion \<noteq> toVersion"
  shows "migrateUsers now' fromVersion toVersion (snd (migrateUsers now fromVersion toVersion s))
           = (Inr 0, snd (migrateUsers now fromVersion toVersion s))"
proof -
  define s' where "s' = snd (migrateUsers now fromVersion toVersion s)"
  have "registry s' = registry s"
    unfolding s'_def by (rule migrateUsers_post(5) [OF assms(1,2)])
  with assms(1) have h: "has (registry s') toVersion" by simp
  have e: "getUsersPinnedToVersion s' fromVersion = []"
    unfolding s'_def by (rule migrateUsers_none_left [OF assms])
  have "migrateUsers now' fromVersion toVersion s' = (Inr 0, s')"
    using h e by (simp add: migrateUsers_def)
  then show ?thesis unfolding s'_def .
qed

theorem migrateUsers_idempotent_witness:
  "has (registry router_pins) ''v2.0''
   \<and> distinct (map fst (userPins router_pins))
   \<and> ''v2.1'' \<noteq> ''v2.0''
   \<and> migrateUsers clock_later ''v2.1'' ''v2.0'' (snd (migrateUsers clock_demo ''v2.1'' ''v2.0'' router_pins))
        = (Inr 0, snd (migrateUsers clock_demo ''v2.1'' ''v2.0'' router_pins))"
proof -
  have ne: "''v2.1'' \<noteq> ''v2.0''" by simp
  from migrateUsers_idempotent [OF router_pins_facts(1) router_pins_facts(3) ne,
      where now' = clock_later and now = clock_demo]
    router_pins_facts(1,3) ne
  show ?thesis by simp
qed

lemma migrate_same_first:
  "snd (migrateUsers clock_demo ''v2.1'' ''v2.1'' router_pins) =
     router_pins\<lparr>userPins :=
       [(''u1'', \<lparr>pin_userId = ''u1'', pin_version = ''v2.1'', pinnedAt = 1000,
                  reason = Some ''Migrated from v2.1''\<rparr>),
        (''u2'', \<lparr>pin_userId = ''u2'', pin_version = ''v2.0'', pinnedAt = 11, reason = Some ''beta''\<rparr>),
        (''u3'', \<lparr>pin_userId = ''u3'', pin_version = ''v2.1'', pinnedAt = 1001,
                  reason = Some ''Migrated from v2.1''\<rparr>),
        (''u4'', \<lparr>pin_userId = ''u4'', pin_version = ''v2.1'', pinnedAt = 1002,
                  reason = Some ''Migrated from v2.1''\<rparr>)]\<rparr>"
  by (simp add: migrateUsers_def router_pins_facts(2,4) pinUser_def clock_demo_def)
     (simp add: router_pins_def)

text \<open>
  C6 as stated fails when fromVersion and toVersion are the same version: the users
  pinned to it are pinned again by every run, so the second run returns their number
  and writes new pins.
\<close>

theorem migrateUsers_same_version_counterexample:
  "sys_reachable router_pins
   \<and> has (registry router_pins) ''v2.1''
   \<and> fst (migrateUsers clock_later ''v2.1'' ''v2.1''
           (snd (migrateUsers clock_demo ''v2.1'' ''v2.1'' router_pins))) = Inr 3
   \<and> getUserPin (snd (migrateUsers clock_later ''v2.1'' ''v2.1''
           (snd (migrateUsers clock_demo ''v2.1'' ''v2.1'' router_pins)))) ''u1''
       \<noteq> getUserPin (snd (migrateUsers clock_demo ''v2.1'' ''v2.1'' router_pins)) ''u1''"
proof -
  have "has (registry router_pins) ''v2.1''
   \<and> fst (migrateUsers clock_later ''v2.1'' ''v2.1''
           (snd (migrateUsers clock_demo ''v2.1'' ''v2.1'' router_pins))) = Inr 3
   \<and> getUserPin (snd (migrateUsers clock_later ''v2.1'' ''v2.1''
           (snd (migrateUsers clock_demo ''v2.1'' ''v2.1'' router_pins)))) ''u1''
       \<noteq> getUserPin (snd (migrateUsers clock_demo ''v2.1'' ''v2.1'' router_pins)) ''u1''"
    unfolding migrate_same_first
    by (simp add: migrateUsers_def getUsersPinnedToVersion_def pinUser_def clock_later_def
        getUserPin_def router_pins_def reg_demo_def has_def Map_has_def)
  with router_pins_reachable show ?thesis by simp
qed

text \<open>
  C9. For all versions and every router state (and every clock), rollback returns the
  same outcome, count or error, and leaves the same state as migrateUsers.
\<close>

theorem rollback_is_migrateUsers:
  "rollback now fromVersion toVersion s = migrateUsers now fromVersion toVersion s"
  by (simp add: rollback_def)

section \<open>The maps of a reachable state hold each key once\<close>

lemma Map_set_keys_any:
  "map fst (Map_set k v m) = (if Map_has m k then map fst m else map fst m @ [k])"
  by (induction m) (auto simp: Map_has_def split: if_splits)

lemma distinct_Map_set: "distinct (map fst m) \<Longrightarrow> distinct (map fst (Map_set k v m))"
  by (simp add: Map_set_keys_any Map_has_keys)

lemma distinct_Map_delete: "distinct (map fst m) \<Longrightarrow> distinct (map fst (Map_delete k m))"
proof (induction m)
  case Nil
  then show ?case by simp
next
  case (Cons a m)
  have "set (map fst (Map_delete k m)) \<subseteq> set (map fst m)"
    using set_Map_delete [of k m] by auto
  with Cons show ?case by (cases a) auto
qed

lemma reg_reachable_distinct: "reg_reachable r \<Longrightarrow> distinct (map fst (configs r))"
  by (induction rule: reg_reachable.induct)
     (simp_all add: new_AgentRegistry_def register_def setDefaultVersion_def remove_def clear_def
        Let_def distinct_Map_set distinct_Map_delete)

lemma pinUser_distinct:
  "distinct (map fst (userPins s)) \<Longrightarrow> distinct (map fst (userPins (snd (pinUser now u v rsn s))))"
  by (simp add: pinUser_def distinct_Map_set)

lemma migrate_loop_distinct:
  "distinct (map fst (userPins s)) \<Longrightarrow>
   distinct (map fst (userPins (snd (migrate_loop now fromVersion toVersion us k s))))"
proof (induction us arbitrary: k s)
  case Nil
  then show ?case by simp
next
  case (Cons u us)
  let ?step = "pinUser (now k) u toVersion (Some (''Migrated from '' @ fromVersion)) s"
  have d: "distinct (map fst (userPins (snd ?step)))" by (rule pinUser_distinct [OF Cons.prems])
  show ?case
  proof (cases "fst ?step")
    case (Inl e)
    then have "migrate_loop now fromVersion toVersion (u # us) k s = (Inl e, snd ?step)"
      by (cases ?step) simp
    with d show ?thesis by simp
  next
    case (Inr x)
    then have "migrate_loop now fromVersion toVersion (u # us) k s
        = migrate_loop now fromVersion toVersion us (k + 1) (snd ?step)"
      by (cases ?step) simp
    with Cons.IH [OF d] show ?thesis by simp
  qed
qed

lemma sys_reachable_maps:
  "sys_reachable s \<Longrightarrow>
     distinct (map fst (configs (registry s))) \<and> distinct (map fst (userPins s))
     \<and> distinct (map fst (tenantConfigs s))"
proof (induction rule: sys_reachable.induct)
  case (sys_new r)
  then show ?case by (simp add: new_VersionRouter_def reg_reachable_distinct)
next
  case (sys_register s config)
  then show ?case by (simp add: register_def Let_def distinct_Map_set)
next
  case (sys_setDefaultVersion s version)
  then show ?case by (simp add: setDefaultVersion_def)
next
  case (sys_remove s version)
  then show ?case by (simp add: remove_def distinct_Map_delete)
next
  case (sys_clear s)
  then show ?case by (simp add: clear_def)
next
  case (sys_setGlobalConfig s config)
  then show ?case by (simp add: setGlobalConfig_snd)
next
  case (sys_setTenantConfig s tenantId tconfig)
  then show ?case by (simp add: setTenantConfig_def Let_def distinct_Map_set)
next
  case (sys_pinUser s now userId version rsn)
  then show ?case by (simp add: pinUser_def distinct_Map_set)
next
  case (sys_unpinUser s userId)
  then show ?case by (simp add: unpinUser_def distinct_Map_delete)
next
  case (sys_migrateUsers s clock fromVersion toVersion)
  let ?s' = "snd (migrateUsers clock fromVersion toVersion s)"
  have p: "distinct (map fst (userPins ?s'))"
    using sys_migrateUsers.IH by (simp add: migrateUsers_def migrate_loop_distinct)
  have f: "registry ?s' = registry s \<and> tenantConfigs ?s' = tenantConfigs s"
  proof (cases "has (registry s) toVersion")
    case True
    from migrate_loop_has [OF True, of clock fromVersion "getUsersPinnedToVersion s fromVersion" 0]
    obtain s' where "migrate_loop clock fromVersion toVersion (getUsersPinnedToVersion s fromVersion) 0 s
        = (Inr (0 + length (getUsersPinnedToVersion s fromVersion)), s')"
      and "registry s' = registry s" "tenantConfigs s' = tenantConfigs s"
      by blast
    with True show ?thesis by (simp add: migrateUsers_def)
  next
    case False
    then show ?thesis by (simp add: migrateUsers_def)
  qed
  with p sys_migrateUsers.IH show ?case by simp
qed

section \<open>resolveVersion returns registered versions\<close>

lemma has_register: "has r v \<Longrightarrow> has (snd (register c r)) v"
  by (simp add: register_def has_def Map_has_set Let_def)

lemma has_setDefaultVersion: "has (snd (setDefaultVersion d r)) v = has r v"
  by (simp add: setDefaultVersion_def has_def)

lemma refs_mono:
  assumes "\<And>v. has r v \<Longrightarrow> has r' v"
  shows "pins_registered r pins \<Longrightarrow> pins_registered r' pins"
    and "tenants_registered r tcs \<Longrightarrow> tenants_registered r' tcs"
    and "global_registered r g \<Longrightarrow> global_registered r' g"
  using assms
  by (auto simp: pins_registered_def tenants_registered_def global_registered_def split: option.splits)

lemma refs_new: "reg_reachable r \<Longrightarrow> refs_registered (new_VersionRouter r)"
  by (simp add: refs_registered_def new_VersionRouter_def reg_reachable_inv pins_registered_def
      tenants_registered_def global_registered_def)

lemma refs_register:
  assumes "refs_registered s"
  shows "refs_registered (s\<lparr>registry := snd (register config (registry s))\<rparr>)"
  using assms refs_mono [of "registry s" "snd (register config (registry s))", OF has_register]
  by (simp add: refs_registered_def reg_inv_register)

lemma refs_setDefaultVersion:
  assumes "refs_registered s"
  shows "refs_registered (s\<lparr>registry := snd (setDefaultVersion version (registry s))\<rparr>)"
  using assms refs_mono [of "registry s" "snd (setDefaultVersion version (registry s))"]
  by (simp add: refs_registered_def reg_inv_setDefaultVersion has_setDefaultVersion)

lemma refs_setGlobalConfig:
  assumes "refs_registered s" "fst (setGlobalConfig config s) = Inr ()"
  shows "refs_registered (snd (setGlobalConfig config s))"
proof -
  from assms(2) have h: "has (registry s) (gc_defaultVersion config)"
    by (simp add: setGlobalConfig_fst split: if_splits)
  let ?r' = "(registry s)\<lparr>defaultVersion := Some (gc_defaultVersion config)\<rparr>"
  have m: "has ?r' v = has (registry s) v" for v by (simp add: has_def)
  have "reg_inv ?r'" using h by (simp add: reg_inv_def has_def)
  moreover have "global_registered ?r' (Some config)"
    using h by (simp add: global_registered_def has_def)
  ultimately show ?thesis
    using assms(1) h refs_mono(1,2) [of "registry s" ?r'] m
    by (simp add: setGlobalConfig_snd refs_registered_def)
qed

lemma refs_setTenantConfig:
  assumes "refs_registered s" "fst (setTenantConfig tenantId tconfig s) = Inr ()"
  shows "refs_registered (snd (setTenantConfig tenantId tconfig s))"
proof -
  from assms(2) have h: "truthy (tc_defaultVersion tconfig) \<longrightarrow> has (registry s) (the (tc_defaultVersion tconfig))"
    by (auto simp: setTenantConfig_def Let_def split: if_splits)
  have s: "snd (setTenantConfig tenantId tconfig s)
             = s\<lparr>tenantConfigs := Map_set tenantId tconfig (tenantConfigs s)\<rparr>"
    by (simp add: setTenantConfig_def Let_def)
  have "tenants_registered (registry s) (Map_set tenantId tconfig (tenantConfigs s))"
    using assms(1) h set_Map_set [of tenantId tconfig "tenantConfigs s"]
    by (auto simp: refs_registered_def tenants_registered_def)
  with assms(1) show ?thesis by (simp add: s refs_registered_def)
qed

lemma refs_pinUser:
  assumes "refs_registered s"
  shows "refs_registered (snd (pinUser now userId version rsn s))"
proof (cases "has (registry s) version")
  case False
  with assms show ?thesis by (simp add: pinUser_def)
next
  case True
  let ?p = "\<lparr>pin_userId = userId, pin_version = version, pinnedAt = now, reason = rsn\<rparr>"
  have "pins_registered (registry s) (Map_set userId ?p (userPins s))"
    using assms True set_Map_set [of userId ?p "userPins s"]
    by (auto simp: refs_registered_def pins_registered_def)
  with assms True show ?thesis by (simp add: pinUser_def refs_registered_def)
qed

lemma refs_unpinUser:
  assumes "refs_registered s"
  shows "refs_registered (snd (unpinUser userId s))"
proof -
  have "pins_registered (registry s) (Map_delete userId (userPins s))"
    using assms set_Map_delete [of userId "userPins s"]
    by (auto simp: refs_registered_def pins_registered_def)
  with assms show ?thesis by (simp add: unpinUser_def refs_registered_def)
qed

lemma refs_migrate_loop:
  "refs_registered s \<Longrightarrow> refs_registered (snd (migrate_loop now fromVersion toVersion us k s))"
proof (induction us arbitrary: k s)
  case Nil
  then show ?case by simp
next
  case (Cons u us)
  let ?step = "pinUser (now k) u toVersion (Some (''Migrated from '' @ fromVersion)) s"
  have r: "refs_registered (snd ?step)" by (rule refs_pinUser [OF Cons.prems])
  show ?case
  proof (cases "fst ?step")
    case (Inl e)
    then have "migrate_loop now fromVersion toVersion (u # us) k s = (Inl e, snd ?step)"
      by (cases ?step) simp
    with r show ?thesis by simp
  next
    case (Inr x)
    then have "migrate_loop now fromVersion toVersion (u # us) k s
        = migrate_loop now fromVersion toVersion us (k + 1) (snd ?step)"
      by (cases ?step) simp
    with Cons.IH [OF r] show ?thesis by simp
  qed
qed

lemma refs_migrateUsers:
  "refs_registered s \<Longrightarrow> refs_registered (snd (migrateUsers clock fromVersion toVersion s))"
  by (simp add: migrateUsers_def refs_migrate_loop)

lemma mem_referenced_versions:
  "v \<in> set (referenced_versions s) \<longleftrightarrow>
     (\<exists>x \<in> set (userPins s). pin_version (snd x) = v)
     \<or> (\<exists>x \<in> set (tenantConfigs s). present (tc_defaultVersion (snd x)) = Some v)
     \<or> (\<exists>g. globalConfig s = Some g \<and> gc_defaultVersion g = v \<and> v \<noteq> [])"
proof -
  have g: "v \<in> set (case globalConfig s of
          None \<Rightarrow> []
        | Some g \<Rightarrow> (case present (Some (gc_defaultVersion g)) of None \<Rightarrow> [] | Some d \<Rightarrow> [d]))
      \<longleftrightarrow> (\<exists>g. globalConfig s = Some g \<and> gc_defaultVersion g = v \<and> v \<noteq> [])"
    by (cases "globalConfig s") (auto simp: present_def truthy_def)
  have p: "v \<in> set (map (\<lambda>x. pin_version (snd x)) (userPins s))
      \<longleftrightarrow> (\<exists>x \<in> set (userPins s). pin_version (snd x) = v)"
    by (auto simp: image_iff)
  have t: "v \<in> set (List.map_filter (\<lambda>x. present (tc_defaultVersion (snd x))) (tenantConfigs s))
      \<longleftrightarrow> (\<exists>x \<in> set (tenantConfigs s). present (tc_defaultVersion (snd x)) = Some v)"
    by (simp add: set_map_filter)
  show ?thesis
    unfolding referenced_versions_def set_append Un_iff p t g ..
qed

lemma refs_remove_unreferenced:
  assumes "refs_registered s" "version \<notin> set (referenced_versions s)"
  shows "refs_registered (s\<lparr>registry := snd (remove version (registry s))\<rparr>)"
proof (cases "defaultVersion (registry s) = Some version")
  case True
  then have "snd (remove version (registry s)) = registry s" by (simp add: remove_def)
  with assms(1) show ?thesis by simp
next
  case False
  let ?r' = "snd (remove version (registry s))"
  have h: "has ?r' v \<longleftrightarrow> v \<noteq> version \<and> has (registry s) v" for v
    using False by (simp add: remove_def has_def Map_has_delete)
  have pins: "pins_registered ?r' (userPins s)"
    unfolding pins_registered_def
  proof
    fix x assume x: "x \<in> set (userPins s)"
    with assms(1) have "has (registry s) (pin_version (snd x))"
      by (simp add: refs_registered_def pins_registered_def)
    moreover from x assms(2) have "pin_version (snd x) \<noteq> version"
      unfolding mem_referenced_versions by blast
    ultimately show "has ?r' (pin_version (snd x))" by (simp add: h)
  qed
  have tenants: "tenants_registered ?r' (tenantConfigs s)"
    unfolding tenants_registered_def
  proof (intro ballI impI)
    fix x assume x: "x \<in> set (tenantConfigs s)" and t: "truthy (tc_defaultVersion (snd x))"
    with assms(1) have "has (registry s) (the (tc_defaultVersion (snd x)))"
      by (simp add: refs_registered_def tenants_registered_def)
    moreover from t have "present (tc_defaultVersion (snd x)) = Some (the (tc_defaultVersion (snd x)))"
      by (cases "tc_defaultVersion (snd x)") (simp_all add: present_def truthy_def)
    with x assms(2) have "the (tc_defaultVersion (snd x)) \<noteq> version"
      unfolding mem_referenced_versions by blast
    ultimately show "has ?r' (the (tc_defaultVersion (snd x)))" by (simp add: h)
  qed
  have global: "global_registered ?r' (globalConfig s)"
  proof (cases "globalConfig s")
    case None
    then show ?thesis by (simp add: global_registered_def)
  next
    case (Some g)
    show ?thesis
    proof (cases "gc_defaultVersion g = []")
      case True
      with Some show ?thesis by (simp add: global_registered_def)
    next
      case False
      with Some assms(1) have "has (registry s) (gc_defaultVersion g)"
        by (simp add: refs_registered_def global_registered_def)
      moreover from Some False assms(2) have "gc_defaultVersion g \<noteq> version"
        unfolding mem_referenced_versions by blast
      ultimately show ?thesis using Some by (simp add: global_registered_def h)
    qed
  qed
  from assms(1) have "reg_inv ?r'" by (simp add: refs_registered_def reg_inv_remove)
  with pins tenants global show ?thesis by (simp add: refs_registered_def)
qed

lemma refs_remove:
  assumes "refs_registered s"
    "version \<notin> set (referenced_versions s) \<or> defaultVersion (registry s) = Some version"
  shows "refs_registered (s\<lparr>registry := snd (remove version (registry s))\<rparr>)"
proof (cases "defaultVersion (registry s) = Some version")
  case True
  then have "snd (remove version (registry s)) = registry s" by (simp add: remove_def)
  with assms(1) show ?thesis by simp
next
  case False
  with assms show ?thesis by (simp add: refs_remove_unreferenced)
qed

lemma refs_clear:
  assumes "refs_registered s" "referenced_versions s = []"
  shows "refs_registered (s\<lparr>registry := clear (registry s)\<rparr>)"
proof -
  have n: "v \<notin> set (referenced_versions s)" for v using assms(2) by simp
  have pins: "userPins s = []"
  proof (cases "userPins s")
    case (Cons x xs)
    then have "pin_version (snd x) \<in> set (referenced_versions s)"
      unfolding mem_referenced_versions by auto
    with n show ?thesis by blast
  qed simp
  have tenants: "tenants_registered (clear (registry s)) (tenantConfigs s)"
    unfolding tenants_registered_def
  proof (intro ballI impI)
    fix x assume x: "x \<in> set (tenantConfigs s)" and t: "truthy (tc_defaultVersion (snd x))"
    from t have "present (tc_defaultVersion (snd x)) = Some (the (tc_defaultVersion (snd x)))"
      by (cases "tc_defaultVersion (snd x)") (simp_all add: present_def truthy_def)
    with x have "the (tc_defaultVersion (snd x)) \<in> set (referenced_versions s)"
      unfolding mem_referenced_versions by blast
    with n show "has (clear (registry s)) (the (tc_defaultVersion (snd x)))" by blast
  qed
  have global: "global_registered (clear (registry s)) (globalConfig s)"
  proof (cases "globalConfig s")
    case None
    then show ?thesis by (simp add: global_registered_def)
  next
    case (Some g)
    have "gc_defaultVersion g = []"
    proof (rule ccontr)
      assume "gc_defaultVersion g \<noteq> []"
      with Some have "gc_defaultVersion g \<in> set (referenced_versions s)"
        unfolding mem_referenced_versions by blast
      with n show False by blast
    qed
    with Some show ?thesis by (simp add: global_registered_def)
  qed
  from pins tenants global show ?thesis
    by (simp add: refs_registered_def reg_inv_clear pins_registered_def)
qed

lemma keeps_reachable_refs: "keeps_reachable s \<Longrightarrow> refs_registered s"
  by (induction rule: keeps_reachable.induct)
     (simp_all add: refs_new refs_register refs_setDefaultVersion refs_setGlobalConfig
        refs_setTenantConfig refs_pinUser refs_unpinUser refs_migrateUsers refs_remove refs_clear)

lemma has_getVersions: "has r v \<longleftrightarrow> v \<in> set (getVersions r)"
  by (simp add: has_def getVersions_def Map_has_keys)

lemma getLatestVersion_has:
  assumes "reg_inv r" "getLatestVersion r = Some l"
  shows "has r l"
proof (cases "getVersions r")
  case Nil
  with assms(2) show ?thesis by (simp add: getLatestVersion_def)
next
  case (Cons v0 vs)
  show ?thesis
  proof (cases "semanticVersions r")
    case (Cons sv svs)
    with assms(2) \<open>getVersions r = v0 # vs\<close> have "l = sv_version sv"
      by (simp add: getLatestVersion_def)
    with semanticVersions_hd(1) [OF Cons] show ?thesis by (simp add: has_getVersions)
  next
    case Nil
    show ?thesis
    proof (cases "truthy (defaultVersion r)")
      case True
      with assms(2) Nil \<open>getVersions r = v0 # vs\<close> have "defaultVersion r = Some l"
        by (simp add: getLatestVersion_def)
      with assms(1) show ?thesis by (simp add: reg_inv_def)
    next
      case False
      with assms(2) Nil \<open>getVersions r = v0 # vs\<close> have "l = v0"
        by (simp add: getLatestVersion_def)
      with \<open>getVersions r = v0 # vs\<close> show ?thesis by (simp add: has_getVersions)
    qed
  qed
qed

lemma user_pin_version_has:
  assumes "refs_registered s" "user_pin_version s ctx = Some v"
  shows "has (registry s) v"
proof -
  from assms(2) obtain p where g: "Map_get (userPins s) (ctx_userId ctx) = Some p"
    and v: "pin_version p = v"
    by (auto simp: user_pin_version_def getUserPin_def)
  from Map_get_Some_mem [OF g] assms(1) have "has (registry s) (pin_version p)"
    by (auto simp: refs_registered_def pins_registered_def)
  with v show ?thesis by simp
qed

lemma tenant_default_version_has:
  assumes "refs_registered s" "tenant_default_version s ctx = Some v"
  shows "has (registry s) v"
proof -
  from assms(2) obtain t tc where g: "Map_get (tenantConfigs s) t = Some tc"
    and v: "present (tc_defaultVersion tc) = Some v"
    by (auto simp: tenant_default_version_def getTenantConfig_def split: option.splits)
  from v have tv: "truthy (tc_defaultVersion tc)" "the (tc_defaultVersion tc) = v"
    by (simp_all add: present_Some_iff truthy_def)
  from Map_get_Some_mem [OF g] assms(1) tv(1) have "has (registry s) (the (tc_defaultVersion tc))"
    by (auto simp: refs_registered_def tenants_registered_def)
  with tv(2) show ?thesis by simp
qed

lemma global_default_version_has:
  assumes "refs_registered s" "global_default_version s = Some v"
  shows "has (registry s) v"
proof -
  from assms(2) obtain g where g: "globalConfig s = Some g" and v: "gc_defaultVersion g = v" "v \<noteq> []"
    by (auto simp: global_default_version_def getGlobalConfig_def present_Some_iff split: option.splits)
  with assms(1) show ?thesis
    by (auto simp: refs_registered_def global_registered_def)
qed

lemma chain_latest_has:
  assumes "refs_registered s" "chain_latest s = Inr v"
  shows "has (registry s) v"
proof -
  from assms(2) have "present (getLatestVersion (registry s)) = Some v"
    by (simp add: chain_latest_def split: option.splits)
  then have "getLatestVersion (registry s) = Some v" by (simp add: present_Some_iff)
  with assms(1) show ?thesis by (simp add: refs_registered_def getLatestVersion_has)
qed

lemma resolveVersion_has:
  assumes "refs_registered s" "resolveVersion s ctx strategy = Inr v"
  shows "has (registry s) v"
proof (cases "explicit_version ctx")
  case (Some ev)
  from resolve_explicit [OF Some, of s strategy] assms(2) show ?thesis
    by (simp split: if_splits)
next
  case None
  then have e: "\<not> truthy (ctx_version ctx)"
    by (simp add: explicit_version_def present_None_iff)
  define rs where "rs = (if truthy strategy then the strategy else ''pin'')"
  note steps = resolveVersion_steps [OF e, of s strategy, unfolded Let_def, folded rs_def]
  from assms(2) steps
  have "user_pin_version s ctx = Some v \<or> tenant_default_version s ctx = Some v
        \<or> global_default_version s = Some v \<or> chain_latest s = Inr v"
    by (auto split: option.splits if_splits)
  with assms(1) show ?thesis
    using user_pin_version_has tenant_default_version_has global_default_version_has chain_latest_has
    by blast
qed

lemma pinned_state_eq:
  "pinned_state =
     \<lparr>registry = reg12,
      userPins = [(''alice'', \<lparr>pin_userId = ''alice'', pin_version = ''v2.0'', pinnedAt = 0, reason = None\<rparr>)],
      tenantConfigs = [], globalConfig = None\<rparr>"
  by (simp add: pinned_state_def pinUser_def new_VersionRouter_def reg12_def has_def Map_has_def)

lemma removed_state_eq:
  "removed_state =
     \<lparr>registry = \<lparr>configs = [(''v1.0'', cfg ''v1.0'')], defaultVersion = Some ''v1.0''\<rparr>,
      userPins = [(''alice'', \<lparr>pin_userId = ''alice'', pin_version = ''v2.0'', pinnedAt = 0, reason = None\<rparr>)],
      tenantConfigs = [], globalConfig = None\<rparr>"
  by (simp add: removed_state_def pinned_state_eq remove_def reg12_def)

lemma migrated_state_eq:
  "migrated_state =
     \<lparr>registry = reg12,
      userPins = [(''alice'', \<lparr>pin_userId = ''alice'', pin_version = ''v1.0'', pinnedAt = 1000,
                               reason = Some ''Migrated from v2.0''\<rparr>)],
      tenantConfigs = [], globalConfig = None\<rparr>"
  by (simp add: migrated_state_def pinned_state_eq migrateUsers_def getUsersPinnedToVersion_def
      pinUser_def clock_demo_def reg12_def has_def Map_has_def)

lemma retired_state_eq:
  "retired_state =
     \<lparr>registry = \<lparr>configs = [(''v1.0'', cfg ''v1.0'')], defaultVersion = Some ''v1.0''\<rparr>,
      userPins = [(''alice'', \<lparr>pin_userId = ''alice'', pin_version = ''v1.0'', pinnedAt = 1000,
                               reason = Some ''Migrated from v2.0''\<rparr>)],
      tenantConfigs = [], globalConfig = None\<rparr>"
  by (simp add: retired_state_def migrated_state_eq remove_def reg12_def)

text \<open>
  C3, as amended. In every state of a router and its registry reachable by register,
  setDefaultVersion, remove, clear, setGlobalConfig, setTenantConfig, pinUser, unpinUser
  and migrateUsers calls in which remove is not called on a version that a user pin, a
  tenant default or the global default names at that moment, clear is not called while
  there is such a version, and the setGlobalConfig and setTenantConfig calls return: for
  every context and strategy, a version that resolveVersion returns is registered.
  (A setGlobalConfig or setTenantConfig call that throws has already stored its
  unregistered default version, see C1; what resolveVersion returns after such a call is
  left open here.)
\<close>

theorem resolveVersion_registered:
  "keeps_reachable s \<Longrightarrow> resolveVersion s ctx strategy = Inr v \<Longrightarrow> has (registry s) v"
  using keeps_reachable_refs [of s] resolveVersion_has [of s ctx strategy v] by simp

theorem resolveVersion_registered_witness:
  "keeps_reachable retired_state
   \<and> \<not> has (registry retired_state) ''v2.0''
   \<and> resolveVersion retired_state ctx_alice None = Inr ''v1.0''
   \<and> has (registry retired_state) ''v1.0''"
proof -
  have "keeps_reachable pinned_state"
    unfolding pinned_state_def by (intro keeps_pinUser keeps_new reg12_reachable)
  then have m: "keeps_reachable migrated_state"
    unfolding migrated_state_def by (rule keeps_migrateUsers)
  have "''v2.0'' \<notin> set (referenced_versions migrated_state)"
    by (simp add: referenced_versions_def migrated_state_eq List.map_filter_simps)
  then have k: "keeps_reachable retired_state"
    unfolding retired_state_def by (intro keeps_remove [OF m] disjI1)
  have n: "\<not> has (registry retired_state) ''v2.0''"
    by (simp add: retired_state_eq has_def Map_has_def)
  have r: "resolveVersion retired_state ctx_alice None = Inr ''v1.0''"
    by (simp add: retired_state_eq ctx_alice_def resolveVersion_def truthy_def)
  from resolveVersion_registered [OF k r] k n r show ?thesis by simp
qed

text \<open>
  C3 as stated fails: remove checks the registry's default version only, so a version
  that a user is pinned to can be removed, and resolveVersion then returns the pinned,
  unregistered version.
\<close>

theorem resolveVersion_removed_counterexample:
  "sys_reachable removed_state
   \<and> resolveVersion removed_state ctx_alice None = Inr ''v2.0''
   \<and> \<not> has (registry removed_state) ''v2.0''"
proof -
  have "sys_reachable pinned_state"
    unfolding pinned_state_def by (intro sys_pinUser sys_new reg12_reachable)
  then have k: "sys_reachable removed_state"
    unfolding removed_state_def by (rule sys_remove)
  have r: "resolveVersion removed_state ctx_alice None = Inr ''v2.0''"
    by (simp add: removed_state_eq ctx_alice_def resolveVersion_def truthy_def)
  have h: "\<not> has (registry removed_state) ''v2.0''"
    by (simp add: removed_state_eq has_def Map_has_def)
  from k r h show ?thesis by simp
qed

section \<open>Errors and state\<close>

text \<open>
  The methods that validate before they change anything leave the state as it was when
  they throw.
\<close>

lemma register_error_state: "fst (register config r) = Inl e \<Longrightarrow> snd (register config r) = r"
  by (simp add: register_def Let_def split: if_splits)

lemma setDefaultVersion_error_state:
  "fst (setDefaultVersion version r) = Inl e \<Longrightarrow> snd (setDefaultVersion version r) = r"
  by (simp add: setDefaultVersion_def split: if_splits)

lemma remove_error_state: "fst (remove version r) = Inl e \<Longrightarrow> snd (remove version r) = r"
  by (simp add: remove_def split: if_splits)

lemma pinUser_error_state:
  "fst (pinUser now userId version rsn s) = Inl e \<Longrightarrow> snd (pinUser now userId version rsn s) = s"
  by (simp add: pinUser_def split: if_splits)

lemma migrateUsers_error_state:
  assumes "fst (migrateUsers clock fromVersion toVersion s) = Inl e"
  shows "snd (migrateUsers clock fromVersion toVersion s) = s"
proof (cases "has (registry s) toVersion")
  case True
  from migrate_loop_has [OF True, of clock fromVersion "getUsersPinnedToVersion s fromVersion" 0]
  obtain s' where "migrate_loop clock fromVersion toVersion (getUsersPinnedToVersion s fromVersion) 0 s
      = (Inr (0 + length (getUsersPinnedToVersion s fromVersion)), s')"
    by blast
  with True assms show ?thesis by (simp add: migrateUsers_def)
next
  case False
  then show ?thesis by (simp add: migrateUsers_def)
qed

text \<open>
  C1. setGlobalConfig and setTenantConfig store the config before they validate its
  default version. Called on the reachable state \<open>router_demo\<close> with a config whose
  default version v9.9 is not registered, each throws and leaves the rejected config
  stored in place of the previous one; resolveVersion with strategy global-default
  then returns v9.9.
\<close>

theorem setGlobalConfig_error_changes_state:
  "sys_reachable router_demo
   \<and> fst (setGlobalConfig gc_missing router_demo)
     = Inl (Error ''Default version v9.9 not found in registry'')
   \<and> getGlobalConfig router_demo = Some gc_demo
   \<and> getGlobalConfig (snd (setGlobalConfig gc_missing router_demo)) = Some gc_missing
   \<and> gc_missing \<noteq> gc_demo
   \<and> resolveVersion (snd (setGlobalConfig gc_missing router_demo)) ctx_alice (Some ''global-default'')
       = Inr ''v9.9''
   \<and> fst (setTenantConfig ''acme'' tc_missing router_demo)
       = Inl (Error ''Tenant default version v9.9 not found in registry'')
   \<and> getTenantConfig router_demo ''acme''
       = Some \<lparr>tc_tenantId = ''acme'', tc_defaultVersion = Some ''v2.0'',
                tc_promptOverrides = None, tc_costLimits = None, tc_features = None\<rparr>
   \<and> getTenantConfig (snd (setTenantConfig ''acme'' tc_missing router_demo)) ''acme'' = Some tc_missing"
proof -
  have h: "\<not> has (registry router_demo) ''v9.9''" by (rule demo_values(6))
  have a: "fst (setGlobalConfig gc_missing router_demo)
     = Inl (Error ''Default version v9.9 not found in registry'')"
    using h by (simp add: setGlobalConfig_fst gc_missing_def)
  have b: "getGlobalConfig router_demo = Some gc_demo"
    by (simp add: getGlobalConfig_def router_demo_def gc_demo_def)
  have s: "snd (setGlobalConfig gc_missing router_demo) = router_demo\<lparr>globalConfig := Some gc_missing\<rparr>"
    using h by (simp add: setGlobalConfig_snd gc_missing_def)
  have c: "getGlobalConfig (snd (setGlobalConfig gc_missing router_demo)) = Some gc_missing"
    by (simp add: s getGlobalConfig_def)
  have d: "gc_missing \<noteq> gc_demo" by (simp add: gc_missing_def gc_demo_def)
  have e: "resolveVersion (snd (setGlobalConfig gc_missing router_demo)) ctx_alice (Some ''global-default'')
       = Inr ''v9.9''"
    unfolding s
    by (simp add: resolveVersion_def ctx_alice_def truthy_def present_def gc_missing_def)
  have f: "fst (setTenantConfig ''acme'' tc_missing router_demo)
       = Inl (Error ''Tenant default version v9.9 not found in registry'')"
    using h by (simp add: setTenantConfig_def Let_def tc_missing_def truthy_def)
  have g: "getTenantConfig router_demo ''acme''
       = Some \<lparr>tc_tenantId = ''acme'', tc_defaultVersion = Some ''v2.0'',
                tc_promptOverrides = None, tc_costLimits = None, tc_features = None\<rparr>"
    by (simp add: getTenantConfig_def router_demo_def)
  have i: "getTenantConfig (snd (setTenantConfig ''acme'' tc_missing router_demo)) ''acme'' = Some tc_missing"
    by (simp add: setTenantConfig_def Let_def getTenantConfig_def Map_get_set)
  from router_demo_reachable a b c d e f g i show ?thesis by simp
qed

end
